theory Spec2Isabelle
  imports Main "HOL-Library.Word" "HOL-Library.While_Combinator"
begin

section \<open>The sparse exact-cover matrix (\<^verbatim>\<open>sdaux_t\<close>, \<^verbatim>\<open>sd_genmat\<close>)\<close>

text \<open>
  \<^verbatim>\<open>typedef struct { uint16_t r[324][9]; uint16_t c[729][4]; } sdaux_t;\<close>
  The two tables are lists of rows. Every value the program stores in them is below 729,
  so the 16-bit entries are modelled as natural numbers.
\<close>

record sdaux =
  aux_r :: "nat list list"
  aux_c :: "nat list list"

text \<open>
  Lines 85-92: the body of the three nested loops. The pair carries the running index
  \<^verbatim>\<open>r\<close> and the table \<^verbatim>\<open>a->c\<close>, which \<^verbatim>\<open>calloc\<close> has zeroed.
\<close>

definition genmat_set :: "nat \<Rightarrow> nat \<Rightarrow> nat \<Rightarrow> nat \<times> nat list list \<Rightarrow> nat \<times> nat list list" where
  "genmat_set i j k = (\<lambda>(r, ct).
     (r + 1, ct[r := [9 * i + j, (i div 3 * 3 + j div 3) * 9 + k + 81, 9 * i + k + 162, 9 * j + k + 243]]))"

definition genmat_c :: "nat list list" where
  "genmat_c = snd (fold (\<lambda>i. fold (\<lambda>j. fold (\<lambda>k. genmat_set i j k) [0..<9]) [0..<9]) [0..<9]
                     (0, replicate 729 (replicate 4 0)))"

text \<open>
  Lines 93-96: \<^verbatim>\<open>k = a->c[r][c2], a->r[k][nr[k]++] = r\<close>, with the write cursors
  \<^verbatim>\<open>nr\<close> starting at zero.
\<close>

definition genmat_put :: "nat list list \<Rightarrow> nat \<Rightarrow> nat \<Rightarrow> nat list list \<times> nat list \<Rightarrow> nat list list \<times> nat list" where
  "genmat_put ct r c2 = (\<lambda>(rt, nr).
     let k = ct ! r ! c2 in (rt[k := (rt ! k)[nr ! k := r]], nr[k := nr ! k + 1]))"

definition genmat_r :: "nat list list \<Rightarrow> nat list list" where
  "genmat_r ct = fst (fold (\<lambda>r. fold (\<lambda>c2. genmat_put ct r c2) [0..<4]) [0..<729]
                     (replicate 324 (replicate 9 0), replicate 324 0))"

definition sd_genmat :: sdaux where
  "sd_genmat = (let ct = genmat_c in \<lparr>aux_r = genmat_r ct, aux_c = ct\<rparr>)"

section \<open>The state vectors and \<^verbatim>\<open>sd_update\<close>\<close>

text \<open>
  \<^verbatim>\<open>int16_t sr[729]\<close> and \<^verbatim>\<open>int8_t sc[324]\<close> are lists of 16-bit and 8-bit words;
  \<^verbatim>\<open>+= v\<close> wraps around. The code only adds to these counters and compares them with 0.
\<close>

type_synonym sd_vectors = "16 word list \<times> 8 word list"

definition sd_update :: "sdaux \<Rightarrow> sd_vectors \<Rightarrow> nat \<Rightarrow> int \<Rightarrow> sd_vectors" where
  "sd_update aux vs r v = fold (\<lambda>c2 (sr, sc).
      let c = aux_c aux ! r ! c2 in
        (fold (\<lambda>r2 sr'. sr'[aux_r aux ! c ! r2 := sr' ! (aux_r aux ! c ! r2) + word_of_int v]) [0..<9] sr,
         sc[c := sc ! c + word_of_int v])) [0..<4] vs"

section \<open>The search \<^verbatim>\<open>sd_solve\<close>\<close>

text \<open>
  The local variables of \<^verbatim>\<open>sd_solve\<close> that live across loop iterations. \<^verbatim>\<open>cr\<close>
  (\<^verbatim>\<open>int8_t\<close>, values -1..8) and \<^verbatim>\<open>cc\<close> (\<^verbatim>\<open>int16_t\<close>, values -1..323) only ever receive
  values in those ranges, so they are integer lists. \<open>st_stdout\<close> collects the lines written
  by \<^verbatim>\<open>puts\<close>. \<open>st_fault\<close> records that the code has indexed \<^verbatim>\<open>cc\<close> and \<^verbatim>\<open>cr\<close> at -1.
\<close>

record sd_state =
  st_i :: int
  st_dir :: int
  st_c0 :: nat
  st_sr :: "16 word list"
  st_sc :: "8 word list"
  st_cr :: "int list"
  st_cc :: "int list"
  st_out :: string
  st_stdout :: "string list"
  st_fault :: bool

text \<open>Line 119: \<^verbatim>\<open>_s[i] >= '1' && _s[i] <= '9' ? _s[i] - '1' : -1\<close>.\<close>

definition sd_hint :: "char \<Rightarrow> int" where
  "sd_hint ch = (let n = (of_char ch :: nat) in if 49 \<le> n \<and> n \<le> 57 then int n - 49 else - 1)"

text \<open>
  Lines 116-123. The triple is (state vectors, \<^verbatim>\<open>hints\<close>, \<^verbatim>\<open>out\<close>). Every \<^verbatim>\<open>out[i]\<close>
  with \<open>i < 81\<close> is written here before it is read, and \<^verbatim>\<open>out[81]\<close> on line 124.
\<close>

definition sd_init_step :: "sdaux \<Rightarrow> string \<Rightarrow> nat \<Rightarrow> sd_vectors \<times> int \<times> string \<Rightarrow> sd_vectors \<times> int \<times> string" where
  "sd_init_step aux s i = (\<lambda>(vs, hints, out).
     let a = sd_hint (s ! i) in
       (if a \<ge> 0 then sd_update aux vs (i * 9 + nat a) 1 else vs,
        if a \<ge> 0 then hints + 1 else hints,
        out[i := s ! i]))"

definition sd_init :: "sdaux \<Rightarrow> string \<Rightarrow> sd_vectors \<times> int \<times> string" where
  "sd_init aux s = fold (sd_init_step aux s) [0..<81]
     ((replicate 729 0, replicate 324 0), 0, replicate 82 (CHR 0x00))"

text \<open>
  Lines 127-136, the scan for the constraint with the fewest candidates. The triple is
  (\<^verbatim>\<open>min\<close>, \<^verbatim>\<open>cc[i]\<close>, \<^verbatim>\<open>c0\<close>). Note that \<^verbatim>\<open>c0\<close> changes inside the loop.
\<close>

definition sd_count :: "sdaux \<Rightarrow> 16 word list \<Rightarrow> nat \<Rightarrow> nat" where
  "sd_count aux sr c = length (filter (\<lambda>r2. sr ! (aux_r aux ! c ! r2) = 0) [0..<9])"

function sd_scan :: "sdaux \<Rightarrow> 16 word list \<Rightarrow> 8 word list \<Rightarrow> nat \<Rightarrow> nat \<Rightarrow> int \<Rightarrow> nat \<Rightarrow> nat \<times> int \<times> nat" where
  "sd_scan aux sr sc j mn cci c0 =
     (if j < 324 then
        (let c = (if j + c0 < 324 then j + c0 else j + c0 - 324) in
         if sc ! c \<noteq> 0 then sd_scan aux sr sc (j + 1) mn cci c0
         else
           (let n = sd_count aux sr c in
            if n < mn then (if n \<le> 1 then (n, int c, c + 1) else sd_scan aux sr sc (j + 1) n (int c) (c + 1))
            else (if n \<le> 1 then (mn, cci, c0) else sd_scan aux sr sc (j + 1) mn cci c0)))
      else (mn, cci, c0))"
  by pat_completeness auto
termination
  by (relation "measure (\<lambda>(aux, sr, sc, j, mn, cci, c0). 324 - j)") auto

text \<open>Lines 141-142: the first \<^verbatim>\<open>r2\<close> from the given one on whose placement is not blocked, or 9.\<close>

function sd_next :: "sdaux \<Rightarrow> 16 word list \<Rightarrow> nat \<Rightarrow> nat \<Rightarrow> nat" where
  "sd_next aux sr c r2 =
     (if r2 < 9 then (if sr ! (aux_r aux ! c ! r2) = 0 then r2 else sd_next aux sr c (r2 + 1)) else r2)"
  by pat_completeness auto
termination
  by (relation "measure (\<lambda>(aux, sr, c, r2). 9 - r2)") auto

text \<open>Lines 126-138: in forward direction, choose a constraint; on a dead end step back.\<close>

definition sd_forward :: "sdaux \<Rightarrow> sd_state \<Rightarrow> sd_state" where
  "sd_forward aux st =
     (if st_dir st = 1 then
        (case sd_scan aux (st_sr st) (st_sc st) 0 10 (st_cc st ! nat (st_i st)) (st_c0 st) of
           (mn, cci, c0) \<Rightarrow>
             if mn = 0 \<or> mn = 10
             then st\<lparr>st_cc := (st_cc st)[nat (st_i st) := cci], st_c0 := c0,
                     st_cr := (st_cr st)[nat (st_i st) := - 1], st_i := st_i st - 1, st_dir := - 1\<rparr>
             else st\<lparr>st_cc := (st_cc st)[nat (st_i st) := cci], st_c0 := c0\<rparr>)
      else st)"

text \<open>
  Lines 139-146. When line 137 has taken \<^verbatim>\<open>i\<close> from 0 to -1, line 139 reads \<^verbatim>\<open>cc[-1]\<close>
  and line 140 reads \<^verbatim>\<open>cr[-1]\<close>: the behaviour of the C program is undefined from there on,
  and the model stops with \<open>st_fault\<close> set.
\<close>

definition sd_choose :: "sdaux \<Rightarrow> sd_state \<Rightarrow> sd_state" where
  "sd_choose aux st =
     (if st_i st < 0 then st\<lparr>st_fault := True\<rparr>
      else
        (let i = nat (st_i st);
             c = nat (st_cc st ! i);
             vs = (if st_dir st = - 1 \<and> st_cr st ! i \<ge> 0
                   then sd_update aux (st_sr st, st_sc st) (aux_r aux ! c ! nat (st_cr st ! i)) (- 1)
                   else (st_sr st, st_sc st));
             r2 = sd_next aux (fst vs) c (nat (st_cr st ! i + 1))
         in if r2 < 9
            then (let vs' = sd_update aux vs (aux_r aux ! c ! r2) 1
                  in st\<lparr>st_sr := fst vs', st_sc := snd vs',
                        st_cr := (st_cr st)[i := int r2], st_i := st_i st + 1, st_dir := 1\<rparr>)
            else st\<lparr>st_sr := fst vs, st_sc := snd vs,
                    st_cr := (st_cr st)[i := - 1], st_i := st_i st - 1, st_dir := - 1\<rparr>))"

text \<open>
  Lines 149-151. \<^verbatim>\<open>puts\<close> writes the characters of \<^verbatim>\<open>out\<close> up to the first NUL;
  \<open>st_stdout\<close> receives that line (without the newline \<^verbatim>\<open>puts\<close> appends).
\<close>

definition sd_fill :: "sdaux \<Rightarrow> int list \<Rightarrow> int list \<Rightarrow> nat \<Rightarrow> string \<Rightarrow> string" where
  "sd_fill aux cc cr j out =
     (let r = aux_r aux ! nat (cc ! j) ! nat (cr ! j) in out[r div 9 := char_of (r mod 9 + 49)])"

definition c_string :: "string \<Rightarrow> string" where
  "c_string buf = takeWhile (\<lambda>ch. ch \<noteq> CHR 0x00) buf"

definition sd_print :: "sdaux \<Rightarrow> sd_state \<Rightarrow> sd_state" where
  "sd_print aux st =
     (let out = fold (sd_fill aux (st_cc st) (st_cr st)) [0..<nat (st_i st)] (st_out st)
      in st\<lparr>st_out := out, st_stdout := st_stdout st @ [c_string out],
            st_i := st_i st - 1, st_dir := - 1\<rparr>)"

text \<open>
  Lines 124-152 as one loop: the inner \<^verbatim>\<open>while\<close> runs \<open>sd_choose \<circ> sd_forward\<close> as long
  as \<^verbatim>\<open>0 <= i < 81 - hints\<close>; when it is left with \<^verbatim>\<open>i >= 0\<close> a solution is printed;
  when it is left with \<^verbatim>\<open>i < 0\<close> the outer loop breaks.
\<close>

definition sd_step :: "sdaux \<Rightarrow> int \<Rightarrow> sd_state \<Rightarrow> sd_state" where
  "sd_step aux hints st =
     (if st_i st < 81 - hints then sd_choose aux (sd_forward aux st) else sd_print aux st)"

definition sd_running :: "sd_state \<Rightarrow> bool" where
  "sd_running st = (0 \<le> st_i st \<and> \<not> st_fault st)"

definition sd_start :: "sdaux \<Rightarrow> string \<Rightarrow> sd_state" where
  "sd_start aux s =
     (case sd_init aux s of
        (vs, hints, out) \<Rightarrow>
          \<lparr>st_i = 0, st_dir = 1, st_c0 = 0, st_sr = fst vs, st_sc = snd vs,
           st_cr = replicate 81 (- 1), st_cc = replicate 81 (- 1),
           st_out = out[81 := CHR 0x00], st_stdout = [], st_fault = False\<rparr>)"

definition sd_hints :: "sdaux \<Rightarrow> string \<Rightarrow> int" where
  "sd_hints aux s = fst (snd (sd_init aux s))"

text \<open>
  \<open>sd_solve\<close> gives the final state of the loop, \<open>None\<close> if the loop does not end. The lines
  the call has printed are \<open>st_stdout\<close> of that state; the value returned on line 153 is 0.
\<close>

definition sd_solve :: "sdaux \<Rightarrow> string \<Rightarrow> sd_state option" where
  "sd_solve aux s = while_option sd_running (sd_step aux (sd_hints aux s)) (sd_start aux s)"

definition sd_retval :: "sd_state \<Rightarrow> int option" where
  "sd_retval st = (if st_fault st then None else Some 0)"

section \<open>\<^verbatim>\<open>main\<close>\<close>

text \<open>
  \<^verbatim>\<open>fgets(buf, 1024, stdin)\<close> reads at most 1023 characters and stops after a newline,
  which it keeps. \<open>fgets n\<close> gives the characters read and the rest of the stream.
\<close>

fun fgets :: "nat \<Rightarrow> string \<Rightarrow> string \<times> string" where
  "fgets 0 cs = ([], cs)"
| "fgets (Suc n) [] = ([], [])"
| "fgets (Suc n) (ch # cs) =
     (if ch = CHR 0x0A then ([ch], cs) else (case fgets n cs of (l, rest) \<Rightarrow> (ch # l, rest)))"

definition strlen :: "string \<Rightarrow> nat" where
  "strlen buf = length (c_string buf)"

datatype sd_error = OutOfBounds

text \<open>
  Lines 160-164, on what is left of standard input and with the text printed so far.
  \<open>fuel\<close> bounds the number of \<^verbatim>\<open>fgets\<close> calls; each call on a non-empty stream consumes
  at least one character, so \<open>length stdin\<close> calls suffice.
\<close>

fun main_loop :: "sdaux \<Rightarrow> nat \<Rightarrow> string \<Rightarrow> string \<Rightarrow> (sd_error + string) option" where
  "main_loop aux 0 stdin printed = (if stdin = [] then Some (Inr printed) else None)"
| "main_loop aux (Suc fuel) stdin printed =
     (if stdin = [] then Some (Inr printed)
      else (case fgets 1023 stdin of
        (buf, rest) \<Rightarrow>
          if strlen buf < 81 then main_loop aux fuel rest printed
          else (case sd_solve aux buf of
                  None \<Rightarrow> None
                | Some st \<Rightarrow>
                    if st_fault st then Some (Inl OutOfBounds)
                    else main_loop aux fuel rest
                           (printed @ concat (map (\<lambda>l. l @ [CHR 0x0A]) (st_stdout st)) @ [CHR 0x0A]))))"

definition main :: "string \<Rightarrow> (sd_error + string) option" where
  "main stdin = main_loop sd_genmat (length stdin) stdin []"

section \<open>Auxiliary notions used in the proofs\<close>

definition bump :: "'a::len word list \<Rightarrow> nat list \<Rightarrow> int \<Rightarrow> 'a word list" where
  "bump xs L v = fold (\<lambda>q ys. ys[q := ys ! q + word_of_int v]) L xs"

definition pl_row :: "nat \<Rightarrow> nat" where "pl_row p = p div 81"

definition pl_col :: "nat \<Rightarrow> nat" where "pl_col p = p div 9 mod 9"

definition pl_dig :: "nat \<Rightarrow> nat" where "pl_dig p = p mod 9"

definition cons_of :: "nat \<Rightarrow> nat list" where
  "cons_of p = [9 * pl_row p + pl_col p,
                (pl_row p div 3 * 3 + pl_col p div 3) * 9 + pl_dig p + 81,
                9 * pl_row p + pl_dig p + 162,
                9 * pl_col p + pl_dig p + 243]"

definition put_event :: "nat \<times> nat \<Rightarrow> nat list list \<times> nat list \<Rightarrow> nat list list \<times> nat list" where
  "put_event = (\<lambda>(k, r) (rt, nr). (rt[k := (rt ! k)[nr ! k := r]], nr[k := nr ! k + 1]))"

definition places_of :: "nat \<Rightarrow> nat list" where
  "places_of c = filter (\<lambda>p. c \<in> set (cons_of p)) [0..<729]"

text \<open>The dimensions of \<^verbatim>\<open>sdaux_t\<close>, with every entry a valid index of the other table.\<close>

definition sdaux_ok :: "sdaux \<Rightarrow> bool" where
  "sdaux_ok aux \<longleftrightarrow>
     length (aux_r aux) = 324 \<and> length (aux_c aux) = 729 \<and>
     (\<forall>c<324. length (aux_r aux ! c) = 9 \<and> (\<forall>p\<in>set (aux_r aux ! c). p < 729)) \<and>
     (\<forall>p<729. length (aux_c aux ! p) = 4 \<and> (\<forall>c\<in>set (aux_c aux ! p). c < 324))"

text \<open>
  The state vectors after the placements of a list have been set from the all-zero state,
  and the placements of the hints of an input string.
\<close>

definition blk :: "nat \<Rightarrow> nat list" where
  "blk p = concat (map places_of (cons_of p))"

definition sc_of :: "nat list \<Rightarrow> 8 word list" where
  "sc_of A = bump (replicate 324 0) (concat (map cons_of A)) 1"

definition sr_of :: "nat list \<Rightarrow> 16 word list" where
  "sr_of A = bump (replicate 729 0) (concat (map blk A)) 1"

definition clash :: "nat \<Rightarrow> nat \<Rightarrow> bool" where
  "clash a q \<longleftrightarrow> set (cons_of a) \<inter> set (cons_of q) \<noteq> {}"

definition hint_cells :: "string \<Rightarrow> nat \<Rightarrow> nat list" where
  "hint_cells s n = filter (\<lambda>i. 0 \<le> sd_hint (s ! i)) [0..<n]"

definition hint_list :: "string \<Rightarrow> nat list" where
  "hint_list s = map (\<lambda>i. i * 9 + nat (sd_hint (s ! i))) (hint_cells s 81)"

text \<open>
  The decision stack: the placement chosen at depth \<open>j\<close> is \<^verbatim>\<open>aux->r[cc[j]][cr[j]]\<close>.
  \<open>sd_top\<close> is the number of decisions whose placements are currently set: \<^verbatim>\<open>i\<close> when
  moving forward, \<^verbatim>\<open>i + 1\<close> when the decision at depth \<^verbatim>\<open>i\<close> is about to be reverted.
\<close>

definition sd_stack :: "sd_state \<Rightarrow> nat \<Rightarrow> nat list" where
  "sd_stack st n = map (\<lambda>j. places_of (nat (st_cc st ! j)) ! nat (st_cr st ! j)) [0..<n]"

definition sd_top :: "sd_state \<Rightarrow> nat" where
  "sd_top st = nat (if st_dir st = 1 then st_i st else st_i st + 1)"

text \<open>Every placement of \<open>S\<close> shares no constraint with the hints or with an earlier one.\<close>

definition fresh :: "nat list \<Rightarrow> nat list \<Rightarrow> bool" where
  "fresh H S \<longleftrightarrow> (\<forall>j<length S. \<forall>a\<in>set (H @ take j S). \<not> clash a (S ! j))"

text \<open>The invariant of the loop of \<^verbatim>\<open>sd_solve\<close> on an input \<open>s\<close>.\<close>

definition sd_core :: "string \<Rightarrow> sd_state \<Rightarrow> bool" where
  "sd_core s st \<longleftrightarrow>
     length (st_cr st) = 81 \<and> length (st_cc st) = 81 \<and>
     length (st_out st) = 82 \<and> st_out st ! 81 = CHR 0x00 \<and>
     (\<forall>k<81. st_out st ! k = s ! k \<or> sd_hint (s ! k) < 0 \<and> 0 \<le> sd_hint (st_out st ! k)) \<and>
     \<not> st_fault st \<and> st_c0 st \<le> 324 \<and>
     (st_dir st = 1 \<and> 0 \<le> st_i st \<or> st_dir st = - 1 \<and> - 1 \<le> st_i st) \<and>
     sd_top st + length (hint_list s) \<le> 81 \<and>
     (\<forall>j < sd_top st. 0 \<le> st_cr st ! j \<and> st_cr st ! j < 9 \<and> 0 \<le> st_cc st ! j \<and> st_cc st ! j < 324) \<and>
     (\<forall>j. sd_top st \<le> j \<and> j < 81 \<longrightarrow> st_cr st ! j = - 1) \<and>
     st_sr st = sr_of (hint_list s @ sd_stack st (sd_top st)) \<and>
     st_sc st = sc_of (hint_list s @ sd_stack st (sd_top st)) \<and>
     fresh (hint_list s) (sd_stack st (sd_top st))"

text \<open>The two outcomes of lines 139-146, and the state after line 137 has stepped back.\<close>

definition st_fwd :: "nat list \<Rightarrow> nat \<Rightarrow> nat \<Rightarrow> sd_state \<Rightarrow> sd_state" where
  "st_fwd A p r2 st = st\<lparr>st_sr := sr_of (A @ [p]), st_sc := sc_of (A @ [p]),
     st_cr := (st_cr st)[nat (st_i st) := int r2], st_i := st_i st + 1, st_dir := 1\<rparr>"

definition st_back :: "nat list \<Rightarrow> sd_state \<Rightarrow> sd_state" where
  "st_back A st = st\<lparr>st_sr := sr_of A, st_sc := sc_of A,
     st_cr := (st_cr st)[nat (st_i st) := - 1], st_i := st_i st - 1, st_dir := - 1\<rparr>"

definition st_pick :: "int \<Rightarrow> nat \<Rightarrow> sd_state \<Rightarrow> sd_state" where
  "st_pick cci c0 st = st\<lparr>st_cc := (st_cc st)[nat (st_i st) := cci], st_c0 := c0\<rparr>"

definition st_dead :: "int \<Rightarrow> nat \<Rightarrow> sd_state \<Rightarrow> sd_state" where
  "st_dead cci c0 st = st\<lparr>st_cc := (st_cc st)[nat (st_i st) := cci], st_c0 := c0,
     st_cr := (st_cr st)[nat (st_i st) := - 1], st_i := st_i st - 1, st_dir := - 1\<rparr>"

text \<open>Line 149 writes the digit of every placement on the stack into its cell.\<close>

definition cell_char :: "nat \<Rightarrow> char" where
  "cell_char p = char_of (p mod 9 + 49)"

definition paint :: "nat list \<Rightarrow> string \<Rightarrow> string" where
  "paint S out = fold (\<lambda>p out. out[p div 9 := cell_char p]) S out"

text \<open>A printed line has 81 characters and repeats every hint of the input.\<close>

definition grid_ok :: "string \<Rightarrow> string \<Rightarrow> bool" where
  "grid_ok s g \<longleftrightarrow> length g = 81 \<and> (\<forall>k<81. 0 \<le> sd_hint (s ! k) \<longrightarrow> g ! k = s ! k)"

definition sd_inv :: "string \<Rightarrow> sd_state \<Rightarrow> bool" where
  "sd_inv s st \<longleftrightarrow> (\<forall>g\<in>set (st_stdout st). grid_ok s g) \<and> (st_fault st \<or> sd_core s st)"

text \<open>The states the loop of \<^verbatim>\<open>sd_solve\<close> passes through on input \<open>s\<close>.\<close>

inductive sd_reach :: "sdaux \<Rightarrow> string \<Rightarrow> sd_state \<Rightarrow> bool" for aux s where
  reach_start: "sd_reach aux s (sd_start aux s)"
| reach_step: "sd_reach aux s st \<Longrightarrow> sd_running st \<Longrightarrow> sd_reach aux s (sd_step aux (sd_hints aux s) st)"

definition st_emit :: "nat list \<Rightarrow> sd_state \<Rightarrow> sd_state" where
  "st_emit S st = st\<lparr>st_out := paint S (st_out st),
     st_stdout := st_stdout st @ [take 81 (paint S (st_out st))],
     st_i := st_i st - 1, st_dir := - 1\<rparr>"

section \<open>Sudoku grids\<close>

text \<open>
  The cells of a grid are numbered row by row. A grid is valid when every row, every
  column and every 3x3 box holds each of the digits 1-9 exactly once; it solves an input
  when it is valid and repeats the input's digits.
\<close>

definition row_cells :: "nat \<Rightarrow> nat list" where
  "row_cells i = map (\<lambda>j. 9 * i + j) [0..<9]"

definition col_cells :: "nat \<Rightarrow> nat list" where
  "col_cells j = map (\<lambda>i. 9 * i + j) [0..<9]"

definition box_cells :: "nat \<Rightarrow> nat list" where
  "box_cells b = concat (map (\<lambda>a. map (\<lambda>e. 9 * (3 * (b div 3) + a) + (3 * (b mod 3) + e)) [0..<3]) [0..<3])"

definition sd_units :: "nat list list" where
  "sd_units = map row_cells [0..<9] @ map col_cells [0..<9] @ map box_cells [0..<9]"

definition valid_grid :: "string \<Rightarrow> bool" where
  "valid_grid g \<longleftrightarrow>
     length g = 81 \<and>
     (\<forall>u\<in>set sd_units. \<forall>d\<in>set ''123456789''. count_list (map (\<lambda>k. g ! k) u) d = 1)"

definition solution_of :: "string \<Rightarrow> string \<Rightarrow> bool" where
  "solution_of s g \<longleftrightarrow> valid_grid g \<and> (\<forall>k<81. s ! k \<in> set ''123456789'' \<longrightarrow> g ! k = s ! k)"

section \<open>Example inputs\<close>

text \<open>A solved grid; the same grid with the digit of cell 0 repeated in cell 1; an input
  whose cell 0 has no candidate left; and the empty grid.\<close>

definition ex_full :: string where
  "ex_full = ''534678912672195348198342567859761423426853791713924856961537284287419635345286179''"

definition ex_twice :: string where
  "ex_twice = ''554678912672195348198342567859761423426853791713924856961537284287419635345286179''"


definition ex_blank :: string where
  "ex_blank = ''.................................................................................''"

section \<open>Notions for the correctness of the search\<close>

text \<open>
  A grid agrees with a placement when it has the placement's digit in the placement's cell.
  \<open>sols A\<close> are the valid grids that agree with all placements in \<open>A\<close>.
  \<open>unit_con t d\<close> is the constraint "unit \<open>t\<close> holds digit \<open>d\<close>" for the unit \<open>sd_units ! t\<close>.
\<close>

definition agrees :: "string \<Rightarrow> nat \<Rightarrow> bool" where
  "agrees g p \<longleftrightarrow> g ! (p div 9) = cell_char p"

definition sols :: "nat list \<Rightarrow> string set" where
  "sols A = {g. valid_grid g \<and> (\<forall>a\<in>set A. agrees g a)}"

definition nonclash :: "nat list \<Rightarrow> bool" where
  "nonclash A \<longleftrightarrow> (\<forall>a\<in>set A. \<forall>b\<in>set A. a \<noteq> b \<longrightarrow> \<not> clash a b)"

definition unit_con :: "nat \<Rightarrow> nat \<Rightarrow> nat" where
  "unit_con t d = (if t < 9 then 162 + 9 * t + d
                   else if t < 18 then 243 + 9 * (t - 9) + d
                   else 81 + 9 * (t - 18) + d)"

text \<open>
  The result of the loop from a given state, and the relation between a state at depth
  \<open>i\<close> and the state in which the search has stepped back below depth \<open>i\<close> with the same
  decisions at the depths below and the lines \<open>gs\<close> printed in between.
\<close>

definition sd_final :: "int \<Rightarrow> sd_state \<Rightarrow> sd_state option" where
  "sd_final h st = while_option sd_running (sd_step sd_genmat h) st"

definition sd_exit :: "string \<Rightarrow> sd_state \<Rightarrow> nat \<Rightarrow> string list \<Rightarrow> sd_state \<Rightarrow> bool" where
  "sd_exit s st i gs st' \<longleftrightarrow>
     sd_core s st' \<and> st_dir st' = - 1 \<and> st_i st' = int i - 1 \<and>
     (\<forall>j<i. st_cc st' ! j = st_cc st ! j \<and> st_cr st' ! j = st_cr st ! j) \<and>
     st_stdout st' = st_stdout st @ gs"

definition zsols :: "nat list \<Rightarrow> nat \<Rightarrow> nat \<Rightarrow> string set" where
  "zsols A c r0 = (\<Union>r\<in>{r0..<9}. sols (A @ [places_of c ! r]))"

text \<open>
  What the search does from a state at depth \<open>i\<close> that moves forward (\<open>sd_explored\<close>), and from
  one in which lines 139-146 try the candidates after \<^verbatim>\<open>cr[i]\<close> (\<open>sd_tried\<close>): it comes back
  below depth \<open>i\<close>, and if no two hints exclude each other it has printed, once each, the
  solutions that extend the placements made so far.
\<close>

definition sd_explored :: "string \<Rightarrow> nat \<Rightarrow> sd_state \<Rightarrow> bool" where
  "sd_explored s i st \<longleftrightarrow>
     (\<exists>st' gs. sd_final (int (length (hint_list s))) st = sd_final (int (length (hint_list s))) st' \<and>
        sd_exit s st i gs st' \<and>
        (nonclash (hint_list s) \<longrightarrow> distinct gs \<and> set gs = sols (hint_list s @ sd_stack st i)))"

definition sd_tried :: "string \<Rightarrow> nat \<Rightarrow> sd_state \<Rightarrow> bool" where
  "sd_tried s i st \<longleftrightarrow>
     (\<exists>st' gs. sd_final (int (length (hint_list s))) (sd_choose sd_genmat st)
                 = sd_final (int (length (hint_list s))) st' \<and>
        sd_exit s st i gs st' \<and>
        (nonclash (hint_list s) \<longrightarrow> distinct gs \<and>
           set gs = zsols (hint_list s @ sd_stack st i) (nat (st_cc st ! i)) (nat (st_cr st ! i + 1))))"

text \<open>A line of 80 digits followed by a newline: the solved grid without its last digit.\<close>

definition ex_short :: string where
  "ex_short = ''53467891267219534819834256785976142342685379171392485696153728428741963534528617'' @ [CHR 0x0A]"

section \<open>Facts about the counters and the matrix\<close>

lemma length_bump [simp]: "length (bump xs L v) = length xs"
  unfolding bump_def by (induction L arbitrary: xs) auto

lemma bump_Nil [simp]: "bump xs [] v = xs"
  by (simp add: bump_def)

lemma bump_Cons: "bump xs (q # L) v = bump (xs[q := xs ! q + word_of_int v]) L v"
  by (simp add: bump_def)

lemma bump_append: "bump xs (L @ M) v = bump (bump xs L v) M v"
  by (simp add: bump_def)

lemma bump_nth:
  "q < length xs \<Longrightarrow> bump xs L v ! q = xs ! q + of_nat (count_list L q) * word_of_int v"
proof (induction L arbitrary: xs)
  case Nil
  then show ?case by simp
next
  case (Cons a L)
  show ?case
  proof (cases "a = q")
    case True
    with Cons show ?thesis by (simp add: bump_Cons algebra_simps)
  next
    case False
    with Cons show ?thesis by (simp add: bump_Cons)
  qed
qed

lemma bump_inverse: "bump (bump xs L v) L (- v) = xs"
  by (rule nth_equalityI) (simp_all add: bump_nth)

lemma fold_pair_split:
  "fold (\<lambda>x (a, b). (F x a, G x b)) L (a, b) = (fold F L a, fold G L b)"
  by (induction L arbitrary: a b) auto

lemma fold_nth_list: "length R = n \<Longrightarrow> fold (\<lambda>i. f (R ! i)) [0..<n] = fold f R"
proof -
  assume "length R = n"
  then have "map (\<lambda>i. R ! i) [0..<n] = R" using map_nth [of R] by simp
  then have "fold f R = fold f (map (\<lambda>i. R ! i) [0..<n])" by simp
  also have "\<dots> = fold (\<lambda>i. f (R ! i)) [0..<n]" by (simp add: fold_map comp_def)
  finally show ?thesis by simp
qed

lemma fold_concat_lists: "fold f (concat xss) = fold (fold f) xss"
  by (induction xss) auto

lemma sd_update_bump:
  assumes "length (aux_c aux ! r) = 4"
    and "\<forall>c\<in>set (aux_c aux ! r). length (aux_r aux ! c) = 9"
  shows "sd_update aux (sr, sc) r v =
           (bump sr (concat (map (\<lambda>c. aux_r aux ! c) (aux_c aux ! r))) v, bump sc (aux_c aux ! r) v)"
proof -
  let ?up = "\<lambda>q (ys :: 16 word list). ys[q := ys ! q + word_of_int v]"
  let ?F = "\<lambda>c (sr :: 16 word list). fold ?up (aux_r aux ! c) sr"
  let ?G = "\<lambda>c (sc :: 8 word list). sc[c := sc ! c + word_of_int v]"
  have inner: "fold (\<lambda>r2 sr'. sr'[aux_r aux ! c ! r2 := sr' ! (aux_r aux ! c ! r2) + word_of_int v]) [0..<9] = ?F c"
    if "c \<in> set (aux_c aux ! r)" for c
    using fold_nth_list [of "aux_r aux ! c" 9 ?up] assms(2) that by simp
  have "sd_update aux (sr, sc) r v =
        fold (\<lambda>c2. (\<lambda>c (sr, sc). (?F c sr, ?G c sc)) (aux_c aux ! r ! c2)) [0..<4] (sr, sc)"
    unfolding sd_update_def Let_def
    by (rule fold_cong) (use assms(1) inner in \<open>auto simp: fun_eq_iff\<close>)
  also have "\<dots> = fold (\<lambda>c (sr, sc). (?F c sr, ?G c sc)) (aux_c aux ! r) (sr, sc)"
    using fold_nth_list [of "aux_c aux ! r" 4 "\<lambda>c (sr, sc). (?F c sr, ?G c sc)"] assms(1) by simp
  also have "\<dots> = (fold ?F (aux_c aux ! r) sr, fold ?G (aux_c aux ! r) sc)"
    by (rule fold_pair_split)
  also have "fold ?F (aux_c aux ! r) sr = bump sr (concat (map (\<lambda>c. aux_r aux ! c) (aux_c aux ! r))) v"
    by (simp add: bump_def fold_concat_lists fold_map comp_def)
  finally show ?thesis by (simp add: bump_def)
qed

lemma fold_blocks:
  assumes F: "\<And>x r t. r + m \<le> length t \<Longrightarrow> F x (r, t) = (r + m, take r t @ G x @ drop (r + m) t)"
    and G: "\<And>x. length (G x) = m"
  shows "r + m * length xs \<le> length t \<Longrightarrow>
         fold F xs (r, t) = (r + m * length xs, take r t @ concat (map G xs) @ drop (r + m * length xs) t)"
proof (induction xs arbitrary: r t)
  case Nil
  then show ?case by simp
next
  case (Cons x xs)
  let ?t1 = "take r t @ G x @ drop (r + m) t"
  from Cons.prems have rm: "r + m \<le> length t" by simp
  have len1: "length ?t1 = length t" using rm G by simp
  have tk: "take (r + m) ?t1 = take r t @ G x" using rm G by simp
  have dr: "drop (r + m + m * length xs) ?t1 = drop (r + m + m * length xs) t"
    using rm G by (simp add: min_def ac_simps)
  have "fold F (x # xs) (r, t) = fold F xs (r + m, ?t1)"
    using F [OF rm] by simp
  also have "\<dots> = (r + m + m * length xs, take (r + m) ?t1 @ concat (map G xs) @ drop (r + m + m * length xs) ?t1)"
    using Cons.prems len1 by (intro Cons.IH) simp
  finally show ?case using tk dr by (simp add: add.assoc)
qed

lemma map_shift_upt: "map (\<lambda>b. g (a + b)) [0..<m] = map g [a..<a + m]"
  by (rule nth_equalityI) simp_all

lemma upt_blocks: "concat (map (\<lambda>a. map (\<lambda>b. g (a * m + b)) [0..<m]) [0..<n]) = map g [0..<n * m]"
proof (induction n)
  case 0
  then show ?case by simp
next
  case (Suc n)
  have split: "[0..<Suc n * m] = [0..<n * m] @ [n * m..<n * m + m]"
    using upt_add_eq_append [of 0 "n * m" m] by (simp add: add.commute)
  have "concat (map (\<lambda>a. map (\<lambda>b. g (a * m + b)) [0..<m]) [0..<Suc n])
        = concat (map (\<lambda>a. map (\<lambda>b. g (a * m + b)) [0..<m]) [0..<n]) @ map (\<lambda>b. g (n * m + b)) [0..<m]"
    by simp
  also have "\<dots> = map g [0..<n * m] @ map g [n * m..<n * m + m]"
    unfolding Suc.IH by (simp only: map_shift_upt)
  also have "\<dots> = map g [0..<Suc n * m]"
    by (simp only: split map_append)
  finally show ?case .
qed

lemma placement_split: "p = pl_row p * 81 + (pl_col p * 9 + pl_dig p)"
proof -
  have a: "p mod 81 = p div 9 mod 9 * 9 + p mod 9"
    using mod_mult2_eq [of p 9 9] by simp
  have "p = p div 81 * 81 + p mod 81" by simp
  then show ?thesis unfolding a pl_row_def pl_col_def pl_dig_def .
qed

lemma pl_ijk:
  assumes j: "j < 9" and k: "k < 9"
  shows "pl_row (i * 81 + (j * 9 + k)) = i" "pl_col (i * 81 + (j * 9 + k)) = j"
    "pl_dig (i * 81 + (j * 9 + k)) = k"
proof -
  let ?p = "i * 81 + (j * 9 + k)"
  show "pl_row ?p = i" using j k by (simp add: pl_row_def)
  have b: "?p div 9 = i * 9 + j" using j k by simp
  have d: "(i * 9 + j) mod 9 = j" using j by simp
  show "pl_col ?p = j" unfolding pl_col_def b d ..
  have "?p = (i * 9 + j) * 9 + k" by simp
  then show "pl_dig ?p = k" unfolding pl_dig_def using k by (simp only: mod_mult_self3 mod_less)
qed

lemma pl_bounds: "p < 729 \<Longrightarrow> pl_row p < 9" "pl_col p < 9" "pl_dig p < 9"
  by (simp_all add: pl_row_def pl_col_def pl_dig_def)

lemma cons_of_ijk:
  "j < 9 \<Longrightarrow> k < 9 \<Longrightarrow> cons_of (i * 81 + (j * 9 + k)) =
     [9 * i + j, (i div 3 * 3 + j div 3) * 9 + k + 81, 9 * i + k + 162, 9 * j + k + 243]"
  by (simp add: cons_of_def pl_ijk)

lemma genmat_set_block:
  "r + 1 \<le> length t \<Longrightarrow> genmat_set i j k (r, t) =
     (r + 1, take r t @ [[9 * i + j, (i div 3 * 3 + j div 3) * 9 + k + 81, 9 * i + k + 162, 9 * j + k + 243]] @ drop (r + 1) t)"
  by (simp add: genmat_set_def upd_conv_take_nth_drop)

lemma len_blocks: "length (concat (map (\<lambda>j. map (g j) [0..<m]) xs)) = length xs * m"
  by (induction xs) auto

lemma genmat_c_eq: "genmat_c = map cons_of [0..<729]"
proof -
  let ?f = "\<lambda>i j k. [9 * i + j, (i div 3 * 3 + j div 3) * 9 + k + 81, 9 * i + k + 162, 9 * j + k + 243]"
  let ?Fj = "\<lambda>i j. fold (genmat_set i j) [0..<9]"
  let ?Gj = "\<lambda>i j. map (?f i j) [0..<9]"
  let ?Fi = "\<lambda>i. fold (?Fj i) [0..<9]"
  let ?Gi = "\<lambda>i. concat (map (?Gj i) [0..<9])"
  have lk: "?Fj i j (r, t) = (r + 9, take r t @ ?Gj i j @ drop (r + 9) t)"
    if "r + 9 \<le> length t" for i j r and t :: "nat list list"
  proof -
    have "fold (genmat_set i j) [0..<9] (r, t) =
          (r + 1 * length [0..<9], take r t @ concat (map (\<lambda>k. [?f i j k]) [0..<9]) @ drop (r + 1 * length [0..<9]) t)"
    proof (rule fold_blocks [where m = 1 and G = "\<lambda>k. [?f i j k]"])
      show "genmat_set i j x (r', t') = (r' + 1, take r' t' @ [?f i j x] @ drop (r' + 1) t')"
        if "r' + 1 \<le> length t'" for x r' t'
        using that by (rule genmat_set_block)
      show "length [?f i j x] = 1" for x by simp
      show "r + 1 * length [0..<9] \<le> length t" using that by simp
    qed
    then show ?thesis by simp
  qed
  have lj: "?Fi i (r, t) = (r + 81, take r t @ ?Gi i @ drop (r + 81) t)"
    if "r + 81 \<le> length t" for i r and t :: "nat list list"
  proof -
    have "fold (?Fj i) [0..<9] (r, t) =
          (r + 9 * length [0..<9], take r t @ concat (map (?Gj i) [0..<9]) @ drop (r + 9 * length [0..<9]) t)"
      by (rule fold_blocks [where m = 9 and G = "?Gj i"]) (use that lk in simp_all)
    then show ?thesis by simp
  qed
  have lenGi: "length (?Gi i) = 81" for i
    using len_blocks [of "?f i" 9 "[0..<9]"] by simp
  have li: "fold ?Fi [0..<9] (0, t) = (729, concat (map ?Gi [0..<9]))"
    if "length t = 729" for t :: "nat list list"
  proof -
    have "fold ?Fi [0..<9] (0, t) =
          (0 + 81 * length [0..<9], take 0 t @ concat (map ?Gi [0..<9]) @ drop (0 + 81 * length [0..<9]) t)"
      by (rule fold_blocks [where m = 81 and G = "?Gi"]) (use that lj lenGi in simp_all)
    then show ?thesis using that by simp
  qed
  have inner: "?Gj i j = map (\<lambda>k. cons_of (i * 81 + (j * 9 + k))) [0..<9]" if "j < 9" for i j
    using that by (intro map_cong) (simp_all add: cons_of_ijk)
  have mid: "?Gi i = map (\<lambda>x. cons_of (i * 81 + x)) [0..<81]" for i
  proof -
    have "?Gi i = concat (map (\<lambda>j. map (\<lambda>k. cons_of (i * 81 + (j * 9 + k))) [0..<9]) [0..<9])"
      by (intro arg_cong [where f = concat] map_cong) (simp_all add: cons_of_ijk)
    also have "\<dots> = map (\<lambda>x. cons_of (i * 81 + x)) [0..<9 * 9]"
      by (rule upt_blocks [of "\<lambda>x. cons_of (i * 81 + x)" 9 9])
    finally show ?thesis by simp
  qed
  have "genmat_c = concat (map ?Gi [0..<9])"
    unfolding genmat_c_def using li [of "replicate 729 (replicate 4 0)"] by simp
  also have "\<dots> = concat (map (\<lambda>i. map (\<lambda>x. cons_of (i * 81 + x)) [0..<81]) [0..<9])"
    by (simp only: mid)
  also have "\<dots> = map cons_of [0..<9 * 81]"
    by (rule upt_blocks [of cons_of 81 9])
  finally show ?thesis by simp
qed

lemma fiber_card:
  fixes \<phi> \<psi> :: "nat \<Rightarrow> nat"
  assumes phi: "\<And>p. p < N * M \<Longrightarrow> \<phi> p < N"
    and psi: "\<And>p. p < N * M \<Longrightarrow> \<psi> p < M"
    and inj: "\<And>p q. p < N * M \<Longrightarrow> q < N * M \<Longrightarrow> \<phi> p = \<phi> q \<Longrightarrow> \<psi> p = \<psi> q \<Longrightarrow> p = q"
    and c: "c < N" and M: "0 < M"
  shows "card {p. p < N * M \<and> \<phi> p = c} = M"
proof -
  let ?h = "\<lambda>p. \<phi> p * M + \<psi> p"
  let ?A = "{0..<N * M}"
  let ?B = "{p. p < N * M \<and> \<phi> p = c}"
  have dm: "?h p div M = \<phi> p \<and> ?h p mod M = \<psi> p" if "p < N * M" for p
    using psi [OF that] by simp
  have inj_h: "inj_on ?h ?A"
  proof (rule inj_onI)
    fix p q assume p: "p \<in> ?A" and q: "q \<in> ?A" and e: "?h p = ?h q"
    from p q have p': "p < N * M" and q': "q < N * M" by simp_all
    from e dm [OF p'] dm [OF q'] have "\<phi> p = \<phi> q" "\<psi> p = \<psi> q" by metis+
    with inj p' q' show "p = q" by blast
  qed
  have bound: "a * M + b < N * M" if "a < N" "b < M" for a b
  proof -
    have "a * M + b < a * M + M" using that by simp
    also have "\<dots> = Suc a * M" by simp
    also have "\<dots> \<le> N * M" using that by (intro mult_le_mono1) simp
    finally show ?thesis .
  qed
  have sub: "?h ` ?A \<subseteq> ?A"
    using bound phi psi by auto
  have surj: "?h ` ?A = ?A"
    by (rule endo_inj_surj) (use sub inj_h in simp_all)
  have img: "?h ` ?B = {c * M..<c * M + M}"
  proof (rule set_eqI, rule iffI)
    fix y assume "y \<in> ?h ` ?B"
    then obtain p where p: "p < N * M" "\<phi> p = c" "y = ?h p" by auto
    with psi [of p] show "y \<in> {c * M..<c * M + M}" by simp
  next
    fix y assume y: "y \<in> {c * M..<c * M + M}"
    then obtain b where b: "b < M" "y = c * M + b"
      by (metis add.commute atLeastLessThan_iff le_Suc_ex nat_add_left_cancel_less)
    then have "y \<in> ?A" using bound [OF c] by simp
    with surj obtain p where p: "p \<in> ?A" "y = ?h p" by blast
    then have p': "p < N * M" by simp
    have "\<phi> p = y div M" using dm [OF p'] p by simp
    also have "\<dots> = c" using b by simp
    finally have "p \<in> ?B" using p' by simp
    with p show "y \<in> ?h ` ?B" by blast
  qed
  have "inj_on ?h ?B"
    by (rule inj_on_subset [OF inj_h]) auto
  then have "card (?h ` ?B) = card ?B" by (rule card_image)
  then show ?thesis unfolding img by simp
qed

lemma put_events:
  assumes "\<forall>e\<in>set E. fst e < K"
    and "\<forall>k<K. length (filter (\<lambda>e. fst e = k) E) \<le> M"
  shows "case fold put_event E (replicate K (replicate M 0), replicate K 0) of (rt, nr) \<Rightarrow>
           length rt = K \<and> length nr = K \<and>
           (\<forall>k<K. length (rt ! k) = M \<and> nr ! k = length (filter (\<lambda>e. fst e = k) E) \<and>
                   take (nr ! k) (rt ! k) = map snd (filter (\<lambda>e. fst e = k) E))"
  using assms
proof (induction E rule: rev_induct)
  case Nil
  then show ?case by simp
next
  case (snoc e E)
  obtain k0 r0 where e: "e = (k0, r0)" by (cases e)
  obtain rt nr where f: "fold put_event E (replicate K (replicate M 0), replicate K 0) = (rt, nr)"
    by (cases "fold put_event E (replicate K (replicate M 0), replicate K 0)")
  have pre1: "\<forall>e\<in>set E. fst e < K" using snoc.prems(1) by simp
  have pre2: "\<forall>k<K. length (filter (\<lambda>e. fst e = k) E) \<le> M"
  proof (intro allI impI)
    fix k assume "k < K"
    with snoc.prems(2) have "length (filter (\<lambda>e. fst e = k) (E @ [e])) \<le> M" by blast
    then show "length (filter (\<lambda>e. fst e = k) E) \<le> M" by (simp split: if_splits)
  qed
  from snoc.IH [OF pre1 pre2] f
  have IH: "length rt = K" "length nr = K"
    "\<And>k. k < K \<Longrightarrow> length (rt ! k) = M"
    "\<And>k. k < K \<Longrightarrow> nr ! k = length (filter (\<lambda>e. fst e = k) E)"
    "\<And>k. k < K \<Longrightarrow> take (nr ! k) (rt ! k) = map snd (filter (\<lambda>e. fst e = k) E)"
    by auto
  have k0: "k0 < K" using snoc.prems(1) e by simp
  have "length (filter (\<lambda>e. fst e = k0) (E @ [e])) \<le> M" using snoc.prems(2) k0 by blast
  then have room: "nr ! k0 < M" using IH(4) [OF k0] e by simp
  have step: "fold put_event (E @ [e]) (replicate K (replicate M 0), replicate K 0)
        = (rt[k0 := (rt ! k0)[nr ! k0 := r0]], nr[k0 := nr ! k0 + 1])"
    using f e by (simp add: put_event_def)
  have new: "take (nr ! k0 + 1) ((rt ! k0)[nr ! k0 := r0]) = take (nr ! k0) (rt ! k0) @ [r0]"
    using room IH(3) [OF k0] by (simp add: take_Suc_conv_app_nth)
  show ?case
    unfolding step
    using IH k0 room new e by (auto simp: nth_list_update)
qed

lemma concat_map_if: "concat (map (\<lambda>x. if P x then [x] else []) xs) = filter P xs"
  by (induction xs) auto

lemma placement_eqI:
  "pl_row p = pl_row q \<Longrightarrow> pl_col p = pl_col q \<Longrightarrow> pl_dig p = pl_dig q \<Longrightarrow> p = q"
  using placement_split [of p] placement_split [of q] by simp

lemma dec9:
  fixes a a' k k' :: nat
  assumes "k < 9" "k' < 9" "9 * a + k = 9 * a' + k'"
  shows "a = a'" and "k = k'"
proof -
  have aa: "a = a'" using assms by linarith
  show "a = a'" by (rule aa)
  show "k = k'" using assms(3) unfolding aa by simp
qed

lemma dec3:
  fixes a a' k k' :: nat
  assumes "k < 3" "k' < 3" "a * 3 + k = a' * 3 + k'"
  shows "a = a'" and "k = k'"
proof -
  have aa: "a = a'" using assms by linarith
  show "a = a'" by (rule aa)
  show "k = k'" using assms(3) unfolding aa by simp
qed

lemma divmod3_eq: "i div 3 = i' div 3 \<Longrightarrow> i mod 3 = i' mod 3 \<Longrightarrow> i = (i'::nat)"
  by (metis div_mult_mod_eq)

lemma cons_of_length [simp]: "length (cons_of p) = 4"
  by (simp add: cons_of_def)

lemma cons_of_nth:
  "cons_of p ! 0 = 9 * pl_row p + pl_col p"
  "cons_of p ! 1 = (pl_row p div 3 * 3 + pl_col p div 3) * 9 + pl_dig p + 81"
  "cons_of p ! 2 = 9 * pl_row p + pl_dig p + 162"
  "cons_of p ! 3 = 9 * pl_col p + pl_dig p + 243"
  by (simp_all add: cons_of_def)

lemma fam_bounds_ijk:
  fixes i j k :: nat
  assumes "i < 9" "j < 9" "k < 9"
  shows "9 * i + j < 81 \<and> (i div 3 * 3 + j div 3) * 9 + k < 81 \<and> 9 * i + k < 81 \<and> 9 * j + k < 81"
proof -
  have lin: "a * 3 + b < 9" if "a < 3" "b < 3" for a b :: nat using that by linarith
  have lin2: "x * 9 + k < 81" if "x < 9" for x :: nat using that assms(3) by linarith
  have "i div 3 < 3" "j div 3 < 3" using assms by simp_all
  then have "i div 3 * 3 + j div 3 < 9" by (rule lin)
  then have "(i div 3 * 3 + j div 3) * 9 + k < 81" by (rule lin2)
  moreover have "9 * i + j < 81" "9 * i + k < 81" "9 * j + k < 81" using assms by linarith+
  ultimately show ?thesis by blast
qed

lemma fam_bounds:
  assumes "p < 729"
  shows "9 * pl_row p + pl_col p < 81"
    and "(pl_row p div 3 * 3 + pl_col p div 3) * 9 + pl_dig p < 81"
    and "9 * pl_row p + pl_dig p < 81"
    and "9 * pl_col p + pl_dig p < 81"
  using fam_bounds_ijk [OF pl_bounds(1) [OF assms] pl_bounds(2) pl_bounds(3), of p p] by blast+

lemma four_families:
  fixes a b c d x :: nat
  assumes "a < 81" "b < 81" "c < 81" "d < 81"
  shows "x \<in> set [a, b + 81, c + 162, d + 243] \<longleftrightarrow>
         (if x < 81 then a = x else if x < 162 then b = x - 81 else if x < 243 then c = x - 162 else d = x - 243)"
    and "distinct [a, b + 81, c + 162, d + 243]"
    and "x \<in> set [a, b + 81, c + 162, d + 243] \<Longrightarrow> x < 324"
  using assms by auto

lemma cons_of_bound: "p < 729 \<Longrightarrow> c \<in> set (cons_of p) \<Longrightarrow> c < 324"
  unfolding cons_of_def by (rule four_families(3) [OF fam_bounds])

lemma cons_of_distinct: "p < 729 \<Longrightarrow> distinct (cons_of p)"
  unfolding cons_of_def by (rule four_families(2) [OF fam_bounds])

lemma cons_of_mem:
  assumes "p < 729"
  shows "c \<in> set (cons_of p) \<longleftrightarrow>
    (if c < 81 then 9 * pl_row p + pl_col p = c
     else if c < 162 then (pl_row p div 3 * 3 + pl_col p div 3) * 9 + pl_dig p = c - 81
     else if c < 243 then 9 * pl_row p + pl_dig p = c - 162
     else 9 * pl_col p + pl_dig p = c - 243)"
  unfolding cons_of_def by (rule four_families(1) [OF fam_bounds [OF assms]])

lemma length_filter_upt: "length (filter P [0..<n]) = card {p. p < n \<and> P p}"
proof -
  have "{i. i < length [0..<n] \<and> P ([0..<n] ! i)} = {p. p < n \<and> P p}" by auto
  then show ?thesis by (simp add: length_filter_conv_card)
qed

lemma fiber9:
  fixes \<phi> \<psi> :: "nat \<Rightarrow> nat"
  assumes phi: "\<And>p. p < 729 \<Longrightarrow> \<phi> p < 81"
    and psi: "\<And>p. p < 729 \<Longrightarrow> \<psi> p < 9"
    and inj: "\<And>p q. p < 729 \<Longrightarrow> q < 729 \<Longrightarrow> \<phi> p = \<phi> q \<Longrightarrow> \<psi> p = \<psi> q \<Longrightarrow> p = q"
    and c: "c < 81"
  shows "card {p. p < 729 \<and> \<phi> p = (c::nat)} = 9"
proof -
  have e: "(81::nat) * 9 = 729" by simp
  show ?thesis
    by (rule fiber_card [of 81 9 \<phi> \<psi> c, unfolded e])
       (erule phi, erule psi, erule (3) inj, rule c, simp)
qed

lemma fiber_cell: "c < 81 \<Longrightarrow> card {p. p < 729 \<and> 9 * pl_row p + pl_col p = c} = 9"
proof (rule fiber9 [where \<psi> = pl_dig])
  fix p q assume e: "9 * pl_row p + pl_col p = 9 * pl_row q + pl_col q" and d: "pl_dig p = pl_dig q"
  have "pl_row p = pl_row q" by (rule dec9(1) [OF pl_bounds(2) pl_bounds(2) e])
  moreover have "pl_col p = pl_col q" by (rule dec9(2) [OF pl_bounds(2) pl_bounds(2) e])
  ultimately show "p = q" using d by (intro placement_eqI [of p q]) simp_all
qed (simp_all add: fam_bounds pl_bounds)

lemma fiber_row: "c < 81 \<Longrightarrow> card {p. p < 729 \<and> 9 * pl_row p + pl_dig p = c} = 9"
proof (rule fiber9 [where \<psi> = pl_col])
  fix p q assume e: "9 * pl_row p + pl_dig p = 9 * pl_row q + pl_dig q" and d: "pl_col p = pl_col q"
  have "pl_row p = pl_row q" by (rule dec9(1) [OF pl_bounds(3) pl_bounds(3) e])
  moreover have "pl_dig p = pl_dig q" by (rule dec9(2) [OF pl_bounds(3) pl_bounds(3) e])
  ultimately show "p = q" using d by (intro placement_eqI [of p q]) simp_all
qed (simp_all add: fam_bounds pl_bounds)

lemma fiber_col: "c < 81 \<Longrightarrow> card {p. p < 729 \<and> 9 * pl_col p + pl_dig p = c} = 9"
proof (rule fiber9 [where \<psi> = pl_row])
  fix p q assume e: "9 * pl_col p + pl_dig p = 9 * pl_col q + pl_dig q" and d: "pl_row p = pl_row q"
  have "pl_col p = pl_col q" by (rule dec9(1) [OF pl_bounds(3) pl_bounds(3) e])
  moreover have "pl_dig p = pl_dig q" by (rule dec9(2) [OF pl_bounds(3) pl_bounds(3) e])
  ultimately show "p = q" using d by (intro placement_eqI [of p q]) simp_all
qed (simp_all add: fam_bounds pl_bounds)

lemma box_coords:
  fixes i j i' j' :: nat
  assumes j: "j < 9" "j' < 9"
    and e1: "i div 3 * 3 + j div 3 = i' div 3 * 3 + j' div 3"
    and e2: "i mod 3 * 3 + j mod 3 = i' mod 3 * 3 + j' mod 3"
  shows "i = i' \<and> j = j'"
proof -
  have "j div 3 < 3" "j' div 3 < 3" using j by simp_all
  from dec3 [OF this e1] have b: "i div 3 = i' div 3" "j div 3 = j' div 3" .
  have "j mod 3 < 3" "j' mod 3 < 3" by simp_all
  from dec3 [OF this e2] have c: "i mod 3 = i' mod 3" "j mod 3 = j' mod 3" .
  have "i = i'" by (rule divmod3_eq [OF b(1) c(1)])
  moreover have "j = j'" by (rule divmod3_eq [OF b(2) c(2)])
  ultimately show ?thesis by (rule conjI)
qed

lemma box_slot_bound: "(i::nat) mod 3 * 3 + j mod 3 < 9"
proof -
  have lin: "a * 3 + b < 9" if "a < 3" "b < 3" for a b :: nat using that by linarith
  show ?thesis by (rule lin) simp_all
qed

lemma fiber_box:
  "c < 81 \<Longrightarrow> card {p. p < 729 \<and> (pl_row p div 3 * 3 + pl_col p div 3) * 9 + pl_dig p = c} = 9"
proof (rule fiber9 [where \<psi> = "\<lambda>p. pl_row p mod 3 * 3 + pl_col p mod 3"])
  fix p q
  assume e1: "(pl_row p div 3 * 3 + pl_col p div 3) * 9 + pl_dig p =
              (pl_row q div 3 * 3 + pl_col q div 3) * 9 + pl_dig q"
    and e2: "pl_row p mod 3 * 3 + pl_col p mod 3 = pl_row q mod 3 * 3 + pl_col q mod 3"
  have e1': "9 * (pl_row p div 3 * 3 + pl_col p div 3) + pl_dig p =
             9 * (pl_row q div 3 * 3 + pl_col q div 3) + pl_dig q"
    using e1 by (simp only: mult.commute)
  have a: "pl_row p div 3 * 3 + pl_col p div 3 = pl_row q div 3 * 3 + pl_col q div 3"
    by (rule dec9(1) [OF pl_bounds(3) pl_bounds(3) e1'])
  have k: "pl_dig p = pl_dig q"
    by (rule dec9(2) [OF pl_bounds(3) pl_bounds(3) e1'])
  from box_coords [OF pl_bounds(2) pl_bounds(2) a e2] k
  show "p = q" by (intro placement_eqI [of p q]) simp_all
qed (assumption | rule box_slot_bound | erule fam_bounds)+

lemma places_of_length:
  assumes "c < 324"
  shows "length (places_of c) = 9"
proof -
  have "length (places_of c) = card {p. p < 729 \<and> c \<in> set (cons_of p)}"
    by (simp add: places_of_def length_filter_upt)
  also have "\<dots> = 9"
  proof -
    consider "c < 81" | "81 \<le> c" "c < 162" | "162 \<le> c" "c < 243" | "243 \<le> c"
      by linarith
    then show ?thesis
    proof cases
      case 1
      then have "{p. p < 729 \<and> c \<in> set (cons_of p)} = {p. p < 729 \<and> 9 * pl_row p + pl_col p = c}"
        using cons_of_mem by auto
      then show ?thesis using fiber_cell [of c] 1 by simp
    next
      case 2
      then have "{p. p < 729 \<and> c \<in> set (cons_of p)}
            = {p. p < 729 \<and> (pl_row p div 3 * 3 + pl_col p div 3) * 9 + pl_dig p = c - 81}"
        using cons_of_mem by auto
      then show ?thesis using fiber_box [of "c - 81"] 2 by simp
    next
      case 3
      then have "{p. p < 729 \<and> c \<in> set (cons_of p)} = {p. p < 729 \<and> 9 * pl_row p + pl_dig p = c - 162}"
        using cons_of_mem by auto
      then show ?thesis using fiber_row [of "c - 162"] 3 by simp
    next
      case 4
      then have "{p. p < 729 \<and> c \<in> set (cons_of p)} = {p. p < 729 \<and> 9 * pl_col p + pl_dig p = c - 243}"
        using cons_of_mem by auto
      then show ?thesis using fiber_col [of "c - 243"] 4 assms by simp
    qed
  qed
  finally show ?thesis .
qed

lemma event_filter:
  "distinct L \<Longrightarrow> map snd (filter (\<lambda>e. fst e = k) (map (\<lambda>c. (c, r)) L)) = (if k \<in> set L then [r] else [])"
  by (induction L) auto

lemma events_filter:
  "\<forall>r\<in>set xs. distinct (cons_of r) \<Longrightarrow>
   map snd (filter (\<lambda>e. fst e = k) (concat (map (\<lambda>r. map (\<lambda>c. (c, r)) (cons_of r)) xs)))
     = filter (\<lambda>r. k \<in> set (cons_of r)) xs"
  by (induction xs) (simp_all add: event_filter)

lemma genmat_put_event: "genmat_put ct r c2 = put_event (ct ! r ! c2, r)"
  by (simp add: genmat_put_def put_event_def fun_eq_iff Let_def)

lemma genmat_r_events:
  "genmat_r (map cons_of [0..<729]) =
     fst (fold put_event (concat (map (\<lambda>r. map (\<lambda>c. (c, r)) (cons_of r)) [0..<729]))
            (replicate 324 (replicate 9 0), replicate 324 0))"
proof -
  let ?ct = "map cons_of [0..<729]"
  let ?ev = "\<lambda>r. map (\<lambda>c. (c, r)) (cons_of r)"
  have row: "fold (\<lambda>c2. genmat_put ?ct r c2) [0..<4] = fold put_event (?ev r)" if "r < 729" for r
  proof -
    have "fold (\<lambda>c2. genmat_put ?ct r c2) [0..<4] = fold (\<lambda>c2. (\<lambda>c. put_event (c, r)) (cons_of r ! c2)) [0..<4]"
      using that by (simp add: genmat_put_event)
    also have "\<dots> = fold (\<lambda>c. put_event (c, r)) (cons_of r)"
      by (rule fold_nth_list) simp
    also have "\<dots> = fold put_event (?ev r)"
      by (simp add: fold_map comp_def)
    finally show ?thesis .
  qed
  have "fold (\<lambda>r. fold (\<lambda>c2. genmat_put ?ct r c2) [0..<4]) [0..<729] s
        = fold (\<lambda>r. fold put_event (?ev r)) [0..<729] s" for s
    by (rule fold_cong) (simp_all add: row)
  also have "fold (\<lambda>r. fold put_event (?ev r)) [0..<729] s = fold put_event (concat (map ?ev [0..<729])) s" for s
    by (simp add: fold_concat_lists fold_map comp_def)
  finally show ?thesis by (simp add: genmat_r_def)
qed

lemma genmat_r_eq: "genmat_r (map cons_of [0..<729]) = map places_of [0..<324]"
proof -
  let ?E = "concat (map (\<lambda>r. map (\<lambda>c. (c, r)) (cons_of r)) [0..<729])"
  have dist: "\<forall>r\<in>set [0..<729]. distinct (cons_of r)"
    by (simp add: cons_of_distinct)
  have flt: "map snd (filter (\<lambda>e. fst e = k) ?E) = places_of k" for k
    unfolding places_of_def by (rule events_filter [OF dist])
  have len: "length (filter (\<lambda>e. fst e = k) ?E) = 9" if "k < 324" for k
    using arg_cong [OF flt [of k], of length] places_of_length [OF that] by simp
  have rng: "\<forall>e\<in>set ?E. fst e < 324"
    by (auto simp: cons_of_bound)
  have cnt: "\<forall>k<324. length (filter (\<lambda>e. fst e = k) ?E) \<le> 9"
    by (simp add: len)
  obtain rt nr where f: "fold put_event ?E (replicate 324 (replicate 9 0), replicate 324 0) = (rt, nr)"
    by (cases "fold put_event ?E (replicate 324 (replicate 9 0), replicate 324 0)")
  from put_events [OF rng cnt] f
  have R: "length rt = 324"
    "\<And>k. k < 324 \<Longrightarrow> length (rt ! k) = 9"
    "\<And>k. k < 324 \<Longrightarrow> nr ! k = length (filter (\<lambda>e. fst e = k) ?E)"
    "\<And>k. k < 324 \<Longrightarrow> take (nr ! k) (rt ! k) = map snd (filter (\<lambda>e. fst e = k) ?E)"
    by auto
  have "rt ! k = places_of k" if "k < 324" for k
    using R(2) [OF that] R(3) [OF that] R(4) [OF that] len [OF that] flt [of k] by simp
  then have "rt = map places_of [0..<324]"
    using R(1) by (intro nth_equalityI) simp_all
  then show ?thesis by (simp add: genmat_r_events f)
qed

lemma aux_c_genmat: "aux_c sd_genmat = map cons_of [0..<729]"
  by (simp add: sd_genmat_def genmat_c_eq Let_def)

lemma aux_r_genmat: "aux_r sd_genmat = map places_of [0..<324]"
  by (simp add: sd_genmat_def genmat_c_eq genmat_r_eq Let_def)

section \<open>The matrix and the update primitive: claims C3, C4, C5\<close>

lemma aux_c_nth: "p < 729 \<Longrightarrow> aux_c sd_genmat ! p = cons_of p"
  by (simp add: aux_c_genmat)

lemma aux_r_nth: "c < 324 \<Longrightarrow> aux_r sd_genmat ! c = places_of c"
  by (simp add: aux_r_genmat)

lemma places_of_set: "set (places_of c) = {p. p < 729 \<and> c \<in> set (cons_of p)}"
  by (auto simp: places_of_def)

lemma places_of_distinct: "distinct (places_of c)"
  by (simp add: places_of_def)

lemma places_of_bound: "p \<in> set (places_of c) \<Longrightarrow> p < 729"
  by (simp add: places_of_set)

lemma sdaux_ok_genmat: "sdaux_ok sd_genmat"
  unfolding sdaux_ok_def
  by (auto simp: aux_c_genmat aux_r_genmat places_of_length places_of_bound cons_of_bound)

text \<open>
  Claim C3: for a matrix of the declared dimensions whose entries are valid indices, any
  state vectors of the declared sizes and any placement \<open>r\<close> below 729, \<^verbatim>\<open>sd_update\<close> with
  \<open>v = 1\<close> followed by \<^verbatim>\<open>sd_update\<close> with \<open>v = -1\<close> on the same placement gives back exactly
  the vectors it started from. The counters wrap around, so no bound on their values is needed.
\<close>

theorem sd_update_inverse:
  assumes "sdaux_ok aux" and "r < 729" and "length sr = 729" and "length sc = 324"
  shows "sd_update aux (sd_update aux (sr, sc) r 1) r (- 1) = (sr, sc)"
proof -
  have l4: "length (aux_c aux ! r) = 4" using assms(1,2) by (simp add: sdaux_ok_def)
  have l9: "\<forall>c\<in>set (aux_c aux ! r). length (aux_r aux ! c) = 9"
    using assms(1,2) by (auto simp: sdaux_ok_def)
  show ?thesis
    by (simp only: sd_update_bump [OF l4 l9] bump_inverse)
qed

theorem sd_update_inverse_witness:
  "sdaux_ok sd_genmat \<and> (5::nat) < 729 \<and>
   length (replicate 729 (0::16 word)) = 729 \<and> length (replicate 324 (0::8 word)) = 324 \<and>
   sd_update sd_genmat (sd_update sd_genmat (replicate 729 0, replicate 324 0) 5 1) 5 (- 1)
     = (replicate 729 0, replicate 324 0)"
  using sd_update_inverse [of sd_genmat 5 "replicate 729 0" "replicate 324 0"] sdaux_ok_genmat
  by simp

text \<open>
  Claim C4: for row \<open>i\<close>, column \<open>j\<close> and digit \<open>k\<close> below 9, the row of \<^verbatim>\<open>a->c\<close> for the
  placement \<open>81 * i + 9 * j + k\<close> lists exactly four constraints, one per family: the
  row-column constraint \<open>9 * i + j\<close> in [0, 81), the box-number constraint
  \<open>(i div 3 * 3 + j div 3) * 9 + k + 81\<close> in [81, 162), the row-number constraint
  \<open>9 * i + k + 162\<close> in [162, 243) and the col-number constraint \<open>9 * j + k + 243\<close> in
  [243, 324); and \<^verbatim>\<open>a->r\<close> lists the placement under these four constraints only.
\<close>

theorem sd_genmat_constraints:
  assumes "i < 9" and "j < 9" and "k < 9"
  shows "aux_c sd_genmat ! (81 * i + 9 * j + k) =
           [9 * i + j, (i div 3 * 3 + j div 3) * 9 + k + 81, 9 * i + k + 162, 9 * j + k + 243]
         \<and> 9 * i + j < 81
         \<and> 81 \<le> (i div 3 * 3 + j div 3) * 9 + k + 81 \<and> (i div 3 * 3 + j div 3) * 9 + k + 81 < 162
         \<and> 162 \<le> 9 * i + k + 162 \<and> 9 * i + k + 162 < 243
         \<and> 243 \<le> 9 * j + k + 243 \<and> 9 * j + k + 243 < 324
         \<and> (\<forall>c<324. 81 * i + 9 * j + k \<in> set (aux_r sd_genmat ! c) \<longleftrightarrow>
               c \<in> {9 * i + j, (i div 3 * 3 + j div 3) * 9 + k + 81, 9 * i + k + 162, 9 * j + k + 243})"
proof -
  let ?p = "i * 81 + (j * 9 + k)"
  have e: "81 * i + 9 * j + k = ?p" by simp
  have "j * 9 + k < 81" using assms(2,3) by linarith
  then have p: "?p < 729" using assms(1) by linarith
  have c: "cons_of ?p = [9 * i + j, (i div 3 * 3 + j div 3) * 9 + k + 81, 9 * i + k + 162, 9 * j + k + 243]"
    using assms by (simp add: cons_of_ijk)
  have b: "9 * i + j < 81 \<and> (i div 3 * 3 + j div 3) * 9 + k < 81 \<and> 9 * i + k < 81 \<and> 9 * j + k < 81"
    using assms by (rule fam_bounds_ijk)
  have r: "?p \<in> set (aux_r sd_genmat ! c') \<longleftrightarrow> c' \<in> set (cons_of ?p)" if "c' < 324" for c'
    using that p by (simp add: aux_r_nth places_of_set)
  show ?thesis
    unfolding e using b p r by (simp add: aux_c_nth c)
qed

theorem sd_genmat_constraints_witness:
  "(4::nat) < 9 \<and> (7::nat) < 9 \<and> (2::nat) < 9 \<and>
   aux_c sd_genmat ! 389 = [43, 128, 200, 308] \<and>
   (389 \<in> set (aux_r sd_genmat ! 128) \<longleftrightarrow> True) \<and> (389 \<in> set (aux_r sd_genmat ! 129) \<longleftrightarrow> False)"
  using sd_genmat_constraints [of 4 7 2] by simp

text \<open>
  Claim C5: in the matrix built by \<^verbatim>\<open>sd_genmat\<close> the table \<^verbatim>\<open>r\<close> has 324 rows and
  the table \<^verbatim>\<open>c\<close> has 729 rows; the row of a constraint \<open>c\<close> holds 9 distinct placements,
  the row of a placement \<open>p\<close> holds 4 distinct constraints, and \<open>p\<close> is listed under \<open>c\<close> in
  \<^verbatim>\<open>r\<close> if and only if \<open>c\<close> is listed under \<open>p\<close> in \<^verbatim>\<open>c\<close>.
\<close>

theorem sd_genmat_tables:
  assumes "c < 324" and "p < 729"
  shows "length (aux_r sd_genmat) = 324 \<and> length (aux_c sd_genmat) = 729
         \<and> length (aux_r sd_genmat ! c) = 9 \<and> distinct (aux_r sd_genmat ! c)
         \<and> (\<forall>q\<in>set (aux_r sd_genmat ! c). q < 729)
         \<and> length (aux_c sd_genmat ! p) = 4 \<and> distinct (aux_c sd_genmat ! p)
         \<and> (\<forall>d\<in>set (aux_c sd_genmat ! p). d < 324)
         \<and> (p \<in> set (aux_r sd_genmat ! c) \<longleftrightarrow> c \<in> set (aux_c sd_genmat ! p))"
  using assms
  by (simp add: aux_r_nth aux_c_nth aux_r_genmat aux_c_genmat places_of_length places_of_distinct
      places_of_set cons_of_distinct cons_of_bound)

theorem sd_genmat_tables_witness:
  "(128::nat) < 324 \<and> (389::nat) < 729
   \<and> length (aux_r sd_genmat ! 128) = 9 \<and> distinct (aux_r sd_genmat ! 128)
   \<and> length (aux_c sd_genmat ! 389) = 4 \<and> distinct (aux_c sd_genmat ! 389)
   \<and> 389 \<in> set (aux_r sd_genmat ! 128) \<and> 128 \<in> set (aux_c sd_genmat ! 389)"
proof -
  have "cons_of 389 = [43, 128, 200, 308]"
    using cons_of_ijk [of 7 2 4] by simp
  then have "128 \<in> set (aux_c sd_genmat ! 389)"
    by (simp add: aux_c_nth)
  then show ?thesis using sd_genmat_tables [of 128 389] by simp
qed

section \<open>The state vectors as functions of the placements that are set\<close>

lemma length_sr_of [simp]: "length (sr_of A) = 729"
  by (simp add: sr_of_def)

lemma length_sc_of [simp]: "length (sc_of A) = 324"
  by (simp add: sc_of_def)

lemma sd_update_genmat:
  "p < 729 \<Longrightarrow> sd_update sd_genmat (sr, sc) p v = (bump sr (blk p) v, bump sc (cons_of p) v)"
proof -
  assume p: "p < 729"
  have l4: "length (aux_c sd_genmat ! p) = 4" using p by (simp add: aux_c_nth)
  have l9: "\<forall>c\<in>set (aux_c sd_genmat ! p). length (aux_r sd_genmat ! c) = 9"
    using p by (auto simp: aux_c_nth aux_r_nth cons_of_bound places_of_length)
  have e: "map (\<lambda>c. aux_r sd_genmat ! c) (cons_of p) = map places_of (cons_of p)"
    using p by (intro map_cong) (auto simp: aux_r_nth cons_of_bound)
  show ?thesis
    unfolding sd_update_bump [OF l4 l9] aux_c_nth [OF p] e blk_def ..
qed

lemma sd_update_set:
  "p < 729 \<Longrightarrow> sd_update sd_genmat (sr_of A, sc_of A) p 1 = (sr_of (A @ [p]), sc_of (A @ [p]))"
  by (simp add: sd_update_genmat sr_of_def sc_of_def bump_append)

lemma sd_update_revert:
  "p < 729 \<Longrightarrow> sd_update sd_genmat (sr_of (A @ [p]), sc_of (A @ [p])) p (- 1) = (sr_of A, sc_of A)"
  by (simp add: sd_update_genmat sr_of_def sc_of_def bump_append bump_inverse)

lemma sc_of_nth:
  "c < 324 \<Longrightarrow> sc_of A ! c = of_nat (count_list (concat (map cons_of A)) c)"
  by (simp add: sc_of_def bump_nth)

lemma sr_of_nth:
  "q < 729 \<Longrightarrow> sr_of A ! q = of_nat (count_list (concat (map blk A)) q)"
  by (simp add: sr_of_def bump_nth)

lemma count_concat_le:
  "\<forall>a\<in>set A. count_list (f a) c \<le> m \<Longrightarrow> count_list (concat (map f A)) c \<le> m * length A"
  by (induction A) (auto simp: add_mono)

lemma count_distinct_le: "distinct xs \<Longrightarrow> count_list xs x \<le> 1"
  by (induction xs) auto

lemma word8_of_nat_0: "n < 256 \<Longrightarrow> (of_nat n = (0 :: 8 word)) = (n = 0)"
  using of_nat_neq_0 [of n, where 'a = 8] by (cases "n = 0") simp_all

lemma word16_of_nat_0: "n < 65536 \<Longrightarrow> (of_nat n = (0 :: 16 word)) = (n = 0)"
  using of_nat_neq_0 [of n, where 'a = 16] by (cases "n = 0") simp_all

lemma sc_of_zero:
  assumes "c < 324" and "length A \<le> 81" and "\<forall>a\<in>set A. a < 729"
  shows "sc_of A ! c = 0 \<longleftrightarrow> (\<forall>a\<in>set A. c \<notin> set (cons_of a))"
proof -
  let ?n = "count_list (concat (map cons_of A)) c"
  have "\<forall>a\<in>set A. count_list (cons_of a) c \<le> 1"
    using assms(3) count_distinct_le [OF cons_of_distinct] by blast
  from count_concat_le [OF this] have "?n \<le> length A" by simp
  then have "?n < 256" using assms(2) by simp
  then have "sc_of A ! c = 0 \<longleftrightarrow> ?n = 0"
    using assms(1) by (simp add: sc_of_nth word8_of_nat_0)
  also have "\<dots> \<longleftrightarrow> (\<forall>a\<in>set A. c \<notin> set (cons_of a))"
    by (simp add: count_list_0_iff)
  finally show ?thesis .
qed

lemma length_blk: "p < 729 \<Longrightarrow> length (blk p) = 36"
proof -
  assume p: "p < 729"
  have e: "map (\<lambda>c. length (places_of c)) (cons_of p) = map (\<lambda>c. 9) (cons_of p)"
    using p by (intro map_cong) (auto simp: places_of_length cons_of_bound)
  have "length (blk p) = sum_list (map (\<lambda>c. length (places_of c)) (cons_of p))"
    by (simp add: blk_def length_concat comp_def)
  also have "\<dots> = sum_list (map (\<lambda>c. 9) (cons_of p))" by (simp only: e)
  also have "\<dots> = 36" by (simp add: sum_list_triv)
  finally show ?thesis .
qed

lemma blk_mem: "a < 729 \<Longrightarrow> q \<in> set (blk a) \<longleftrightarrow> q < 729 \<and> clash a q"
  by (auto simp: blk_def places_of_set clash_def)

lemma length_concat_blk: "\<forall>a\<in>set A. a < 729 \<Longrightarrow> length (concat (map blk A)) = 36 * length A"
  by (induction A) (simp_all add: length_blk)

lemma sr_of_zero:
  assumes "q < 729" and "length A \<le> 81" and "\<forall>a\<in>set A. a < 729"
  shows "sr_of A ! q = 0 \<longleftrightarrow> (\<forall>a\<in>set A. \<not> clash a q)"
proof -
  let ?n = "count_list (concat (map blk A)) q"
  have "?n \<le> length (concat (map blk A))" by (rule count_le_length)
  also have "\<dots> = 36 * length A" using assms(3) by (rule length_concat_blk)
  finally have "?n < 65536" using assms(2) by simp
  then have "sr_of A ! q = 0 \<longleftrightarrow> ?n = 0"
    using assms(1) by (simp add: sr_of_nth word16_of_nat_0)
  also have "\<dots> \<longleftrightarrow> (\<forall>a\<in>set A. \<not> clash a q)"
    using assms(1,3) by (auto simp: count_list_0_iff blk_mem)
  finally show ?thesis .
qed

lemma clash_sym: "clash a q \<longleftrightarrow> clash q a"
  by (auto simp: clash_def)

lemma clash_refl: "clash a a"
  by (simp add: clash_def cons_of_def)

subsection \<open>The hints\<close>

lemma sd_hint_range: "- 1 \<le> sd_hint ch \<and> sd_hint ch \<le> 8"
  by (simp add: sd_hint_def Let_def)

lemma hint_cells_Suc:
  "hint_cells s (Suc n) = hint_cells s n @ (if 0 \<le> sd_hint (s ! n) then [n] else [])"
  by (simp add: hint_cells_def)

lemma hint_cells_bound: "k \<in> set (hint_cells s n) \<longleftrightarrow> k < n \<and> 0 \<le> sd_hint (s ! k)"
  by (auto simp: hint_cells_def)

lemma hint_cells_length: "length (hint_cells s n) \<le> n"
  using length_filter_le [of "\<lambda>i. 0 \<le> sd_hint (s ! i)" "[0..<n]"] by (simp add: hint_cells_def)

lemma hint_list_length: "length (hint_list s) \<le> 81"
  by (simp add: hint_list_def hint_cells_length)

lemma hint_placement_bound: "k < 81 \<Longrightarrow> k * 9 + nat (sd_hint ch) < 729"
  using sd_hint_range [of ch] by linarith

lemma hint_list_bound: "a \<in> set (hint_list s) \<Longrightarrow> a < 729"
  by (auto simp: hint_list_def hint_cells_bound hint_placement_bound)

lemma sd_init_prefix:
  "n \<le> 81 \<Longrightarrow>
   fold (sd_init_step sd_genmat s) [0..<n] ((replicate 729 0, replicate 324 0), 0, replicate 82 (CHR 0x00))
     = ((sr_of (map (\<lambda>i. i * 9 + nat (sd_hint (s ! i))) (hint_cells s n)),
         sc_of (map (\<lambda>i. i * 9 + nat (sd_hint (s ! i))) (hint_cells s n))),
        int (length (hint_cells s n)),
        map (\<lambda>i. s ! i) [0..<n] @ replicate (82 - n) (CHR 0x00))"
proof (induction n)
  case 0
  then show ?case by (simp add: hint_cells_def sr_of_def sc_of_def)
next
  case (Suc n)
  then have n: "n < 81" by simp
  have upd: "(map (\<lambda>i. s ! i) [0..<n] @ replicate (82 - n) (CHR 0x00))[n := s ! n]
             = map (\<lambda>i. s ! i) [0..<Suc n] @ replicate (82 - Suc n) (CHR 0x00)"
  proof -
    have "replicate (82 - n) (CHR 0x00) = CHR 0x00 # replicate (82 - Suc n) (CHR 0x00)"
      using n by (simp add: Suc_diff_le replicate_Suc [symmetric] del: replicate_Suc)
    then show ?thesis by (simp add: list_update_append)
  qed
  show ?case
    using Suc.IH n upd
    by (simp add: sd_init_step_def Let_def hint_cells_Suc sd_update_set hint_placement_bound)
qed

lemma sd_init_eq:
  "sd_init sd_genmat s = ((sr_of (hint_list s), sc_of (hint_list s)), int (length (hint_list s)),
                          map (\<lambda>i. s ! i) [0..<81] @ [CHR 0x00])"
  using sd_init_prefix [of 81 s] by (simp add: sd_init_def hint_list_def)

lemma sd_hints_eq: "sd_hints sd_genmat s = int (length (hint_list s))"
  by (simp add: sd_hints_def sd_init_eq)

section \<open>The constraint scan and the candidate search\<close>

lemma sd_count_le: "sd_count aux sr c \<le> 9"
  using length_filter_le [of "\<lambda>r2. sr ! (aux_r aux ! c ! r2) = 0" "[0..<9]"] by (simp add: sd_count_def)

lemma sd_count_0: "sd_count aux sr c = 0 \<longleftrightarrow> (\<forall>r2<9. sr ! (aux_r aux ! c ! r2) \<noteq> 0)"
  by (auto simp: sd_count_def filter_empty_conv)

declare sd_scan.simps [simp del]
declare sd_next.simps [simp del]

lemma rot_bound: "j < 324 \<Longrightarrow> c0 \<le> 324 \<Longrightarrow> (if j + c0 < 324 then j + c0 else j + c0 - 324) < (324::nat)"
proof (cases "j + c0 < 324")
  case True
  then show ?thesis by simp
next
  case False
  assume "j < 324" "c0 \<le> 324"
  then have "j + c0 - 324 < 324" by linarith
  with False show ?thesis by simp
qed

text \<open>What the scan returns: either nothing changed, or a constraint that is still open.\<close>

lemma sd_scan_shape:
  "c0 \<le> 324 \<Longrightarrow> sd_scan aux sr sc j mn cci c0 = (mn', cci', c0') \<Longrightarrow>
     c0' \<le> 324 \<and> mn' \<le> mn \<and>
     ((mn', cci', c0') = (mn, cci, c0) \<or>
      (mn' < mn \<and> (\<exists>c<324. cci' = int c \<and> c0' = c + 1 \<and> sc ! c = 0 \<and> sd_count aux sr c = mn')))"
proof (induction aux sr sc j mn cci c0 rule: sd_scan.induct)
  case (1 aux sr sc j mn cci c0)
  show ?case
  proof (cases "j < 324")
    case False
    with "1.prems" show ?thesis by (simp add: sd_scan.simps [of aux sr sc j])
  next
    case True
    define c where "c = (if j + c0 < 324 then j + c0 else j + c0 - 324)"
    have c: "c < 324" unfolding c_def using True "1.prems"(1) by (rule rot_bound)
    show ?thesis
    proof (cases "sc ! c \<noteq> 0")
      case True
      with \<open>j < 324\<close> "1.prems" have "sd_scan aux sr sc (j + 1) mn cci c0 = (mn', cci', c0')"
        by (simp add: sd_scan.simps [of aux sr sc j] c_def Let_def)
      from "1.IH"(1) [OF \<open>j < 324\<close> c_def True "1.prems"(1) this] show ?thesis .
    next
      case False
      then have z: "sc ! c = 0" by simp
      define n where "n = sd_count aux sr c"
      show ?thesis
      proof (cases "n < mn")
        case lt: True
        show ?thesis
        proof (cases "n \<le> 1")
          case True
          with lt z \<open>j < 324\<close> "1.prems" have "(mn', cci', c0') = (n, int c, c + 1)"
            by (simp add: sd_scan.simps [of aux sr sc j] c_def n_def Let_def)
          with lt z c n_def show ?thesis by auto
        next
          case False
          with lt z \<open>j < 324\<close> "1.prems"
          have r: "sd_scan aux sr sc (j + 1) n (int c) (c + 1) = (mn', cci', c0')"
            by (simp add: sd_scan.simps [of aux sr sc j] c_def n_def Let_def)
          have "c + 1 \<le> 324" using c by simp
          from "1.IH"(2) [OF \<open>j < 324\<close> c_def _ n_def lt False this r] z
          have "c0' \<le> 324 \<and> mn' \<le> n \<and>
                ((mn', cci', c0') = (n, int c, c + 1) \<or>
                 (mn' < n \<and> (\<exists>c<324. cci' = int c \<and> c0' = c + 1 \<and> sc ! c = 0 \<and> sd_count aux sr c = mn')))"
            by simp
          with lt z c n_def show ?thesis by auto
        qed
      next
        case ge: False
        show ?thesis
        proof (cases "n \<le> 1")
          case True
          with ge z \<open>j < 324\<close> "1.prems" have "(mn', cci', c0') = (mn, cci, c0)"
            by (simp add: sd_scan.simps [of aux sr sc j] c_def n_def Let_def)
          with "1.prems" show ?thesis by auto
        next
          case False
          with ge z \<open>j < 324\<close> "1.prems"
          have r: "sd_scan aux sr sc (j + 1) mn cci c0 = (mn', cci', c0')"
            by (simp add: sd_scan.simps [of aux sr sc j] c_def n_def Let_def)
          from "1.IH"(3) [OF \<open>j < 324\<close> c_def _ n_def ge False "1.prems"(1) r] z
          show ?thesis by simp
        qed
      qed
    qed
  qed
qed

text \<open>When no constraint is open, the scan changes nothing.\<close>

lemma sd_scan_none:
  "c0 \<le> 324 \<Longrightarrow> \<forall>c<324. sc ! c \<noteq> 0 \<Longrightarrow> sd_scan aux sr sc j mn cci c0 = (mn, cci, c0)"
proof (induction aux sr sc j mn cci c0 rule: sd_scan.induct)
  case (1 aux sr sc j mn cci c0)
  show ?case
  proof (cases "j < 324")
    case False
    then show ?thesis by (simp add: sd_scan.simps [of aux sr sc j])
  next
    case True
    define c where "c = (if j + c0 < 324 then j + c0 else j + c0 - 324)"
    have c: "c < 324" unfolding c_def using True "1.prems"(1) by (rule rot_bound)
    with "1.prems"(2) have nz: "sc ! c \<noteq> 0" by blast
    from "1.IH"(1) [OF True c_def nz "1.prems"] nz True
    show ?thesis by (simp add: sd_scan.simps [of aux sr sc j] c_def Let_def)
  qed
qed

text \<open>When some constraint from position \<open>j\<close> on is open, the scan started with 10 finds one.\<close>

lemma sd_scan_finds:
  "c0 \<le> 324 \<Longrightarrow> 9 < mn \<Longrightarrow>
   \<exists>j'. j \<le> j' \<and> j' < 324 \<and> sc ! (if j' + c0 < 324 then j' + c0 else j' + c0 - 324) = 0 \<Longrightarrow>
   fst (sd_scan aux sr sc j mn cci c0) \<le> 9"
proof (induction aux sr sc j mn cci c0 rule: sd_scan.induct)
  case (1 aux sr sc j mn cci c0)
  from "1.prems"(3) obtain j' where j': "j \<le> j'" "j' < 324"
    "sc ! (if j' + c0 < 324 then j' + c0 else j' + c0 - 324) = 0" by blast
  then have j: "j < 324" by simp
  define c where "c = (if j + c0 < 324 then j + c0 else j + c0 - 324)"
  have c: "c < 324" unfolding c_def using j "1.prems"(1) by (rule rot_bound)
  show ?case
  proof (cases "sc ! c \<noteq> 0")
    case True
    with j' have "j \<noteq> j'" by (auto simp: c_def)
    with j' have ex: "\<exists>j'. j + 1 \<le> j' \<and> j' < 324 \<and> sc ! (if j' + c0 < 324 then j' + c0 else j' + c0 - 324) = 0"
      by (intro exI [of _ j']) simp
    from "1.IH"(1) [OF j c_def True "1.prems"(1,2) ex] True j
    show ?thesis by (simp add: sd_scan.simps [of aux sr sc j] c_def Let_def)
  next
    case False
    then have z: "sc ! c = 0" by simp
    define n where "n = sd_count aux sr c"
    have n9: "n \<le> 9" by (simp add: n_def sd_count_le)
    then have lt: "n < mn" using "1.prems"(2) by simp
    show ?thesis
    proof (cases "n \<le> 1")
      case True
      with lt z j show ?thesis
        by (simp add: sd_scan.simps [of aux sr sc j] c_def [symmetric] n_def [symmetric] Let_def)
    next
      case False
      obtain a b d where r: "sd_scan aux sr sc (j + 1) n (int c) (c + 1) = (a, b, d)"
        by (cases "sd_scan aux sr sc (j + 1) n (int c) (c + 1)")
      have "c + 1 \<le> 324" using c by simp
      from sd_scan_shape [OF this r] have "a \<le> n" by simp
      with n9 r lt z j False show ?thesis
        by (simp add: sd_scan.simps [of aux sr sc j] c_def [symmetric] n_def [symmetric] Let_def)
    qed
  qed
qed

lemma rot_surj:
  assumes "c < 324" and "c0 \<le> 324"
  shows "\<exists>j'<324. (if j' + c0 < 324 then j' + c0 else j' + c0 - 324) = (c::nat)"
proof (cases "c0 \<le> c")
  case True
  then show ?thesis using assms by (intro exI [of _ "c - c0"]) simp
next
  case False
  then show ?thesis using assms by (intro exI [of _ "c + 324 - c0"]) simp
qed

text \<open>The scan as \<^verbatim>\<open>sd_solve\<close> starts it, with \<^verbatim>\<open>min = 10\<close> and \<^verbatim>\<open>j = 0\<close>.\<close>

lemma sd_scan_start:
  assumes "c0 \<le> 324"
  shows "(\<forall>c<324. sc ! c \<noteq> 0) \<Longrightarrow> sd_scan aux sr sc 0 10 cci c0 = (10, cci, c0)"
    and "\<exists>c<324. sc ! c = 0 \<Longrightarrow>
         \<exists>c<324. sc ! c = 0 \<and> sd_scan aux sr sc 0 10 cci c0 = (sd_count aux sr c, int c, c + 1)"
proof -
  show "sd_scan aux sr sc 0 10 cci c0 = (10, cci, c0)" if "\<forall>c<324. sc ! c \<noteq> 0"
    using assms that by (rule sd_scan_none)
  show "\<exists>c<324. sc ! c = 0 \<and> sd_scan aux sr sc 0 10 cci c0 = (sd_count aux sr c, int c, c + 1)"
    if "\<exists>c<324. sc ! c = 0"
  proof -
    from that obtain c where c: "c < 324" "sc ! c = 0" by blast
    from rot_surj [OF c(1) assms] obtain j' where
      "j' < 324" "(if j' + c0 < 324 then j' + c0 else j' + c0 - 324) = c" by blast
    with c have ex: "\<exists>j'. 0 \<le> j' \<and> j' < 324 \<and> sc ! (if j' + c0 < 324 then j' + c0 else j' + c0 - 324) = 0"
      by (intro exI [of _ j']) simp
    obtain a b d where r: "sd_scan aux sr sc 0 10 cci c0 = (a, b, d)"
      by (cases "sd_scan aux sr sc 0 10 cci c0")
    from sd_scan_finds [OF assms _ ex, of 10 aux sr cci] r have "a \<le> 9" by simp
    with sd_scan_shape [OF assms r] show ?thesis using r by auto
  qed
qed

text \<open>The candidate search returns the first free position from \<open>r2\<close> on, or 9.\<close>

lemma sd_next_spec:
  "r2 \<le> 9 \<Longrightarrow>
   r2 \<le> sd_next aux sr c r2 \<and> sd_next aux sr c r2 \<le> 9 \<and>
   (\<forall>r. r2 \<le> r \<and> r < sd_next aux sr c r2 \<longrightarrow> sr ! (aux_r aux ! c ! r) \<noteq> 0) \<and>
   (sd_next aux sr c r2 < 9 \<longrightarrow> sr ! (aux_r aux ! c ! sd_next aux sr c r2) = 0)"
proof (induction aux sr c r2 rule: sd_next.induct)
  case (1 aux sr c r2)
  show ?case
  proof (cases "r2 < 9 \<and> sr ! (aux_r aux ! c ! r2) \<noteq> 0")
    case True
    then have e: "sd_next aux sr c r2 = sd_next aux sr c (r2 + 1)"
      by (simp add: sd_next.simps [of aux sr c r2])
    from True "1.IH" have IH: "r2 + 1 \<le> sd_next aux sr c (r2 + 1) \<and> sd_next aux sr c (r2 + 1) \<le> 9 \<and>
      (\<forall>r. r2 + 1 \<le> r \<and> r < sd_next aux sr c (r2 + 1) \<longrightarrow> sr ! (aux_r aux ! c ! r) \<noteq> 0) \<and>
      (sd_next aux sr c (r2 + 1) < 9 \<longrightarrow> sr ! (aux_r aux ! c ! sd_next aux sr c (r2 + 1)) = 0)"
      by simp
    have "sr ! (aux_r aux ! c ! r) \<noteq> 0" if "r2 \<le> r" "r < sd_next aux sr c (r2 + 1)" for r
    proof (cases "r = r2")
      case True
      with \<open>r2 < 9 \<and> sr ! (aux_r aux ! c ! r2) \<noteq> 0\<close> show ?thesis by simp
    next
      case False
      with that have "r2 + 1 \<le> r" by simp
      with IH that show ?thesis by blast
    qed
    with IH show ?thesis unfolding e by auto
  next
    case False
    then have "sd_next aux sr c r2 = r2"
      by (auto simp: sd_next.simps [of aux sr c r2])
    with False "1.prems" show ?thesis by auto
  qed
qed

section \<open>The loop invariant\<close>

lemma length_sd_stack [simp]: "length (sd_stack st n) = n"
  by (simp add: sd_stack_def)

lemma sd_stack_nth: "j < n \<Longrightarrow> sd_stack st n ! j = places_of (nat (st_cc st ! j)) ! nat (st_cr st ! j)"
  by (simp add: sd_stack_def)

lemma sd_stack_take: "n \<le> m \<Longrightarrow> take n (sd_stack st m) = sd_stack st n"
  by (simp add: sd_stack_def take_map min_def)

lemma sd_stack_Suc:
  "sd_stack st (Suc n) = sd_stack st n @ [places_of (nat (st_cc st ! n)) ! nat (st_cr st ! n)]"
  by (simp add: sd_stack_def)

lemma sd_stack_cong:
  "(\<And>j. j < n \<Longrightarrow> st_cc st ! j = st_cc st' ! j \<and> st_cr st ! j = st_cr st' ! j) \<Longrightarrow>
   sd_stack st n = sd_stack st' n"
  by (simp add: sd_stack_def)

lemma fresh_Nil [simp]: "fresh H []"
  by (simp add: fresh_def)

lemma fresh_snoc: "fresh H (S @ [p]) \<longleftrightarrow> fresh H S \<and> (\<forall>a\<in>set (H @ S). \<not> clash a p)"
proof
  assume f: "fresh H (S @ [p])"
  have "fresh H S"
    unfolding fresh_def
  proof (intro allI impI ballI)
    fix j a assume j: "j < length S" and a: "a \<in> set (H @ take j S)"
    from f j a have "\<not> clash a ((S @ [p]) ! j)"
      unfolding fresh_def by (auto simp: less_Suc_eq)
    with j show "\<not> clash a (S ! j)" by (simp add: nth_append)
  qed
  moreover have "\<forall>a\<in>set (H @ S). \<not> clash a p"
    using f unfolding fresh_def by (auto dest!: spec [of _ "length S"])
  ultimately show "fresh H S \<and> (\<forall>a\<in>set (H @ S). \<not> clash a p)" by blast
next
  assume f: "fresh H S \<and> (\<forall>a\<in>set (H @ S). \<not> clash a p)"
  show "fresh H (S @ [p])"
    unfolding fresh_def
  proof (intro allI impI ballI)
    fix j a assume j: "j < length (S @ [p])" and a: "a \<in> set (H @ take j (S @ [p]))"
    show "\<not> clash a ((S @ [p]) ! j)"
    proof (cases "j < length S")
      case True
      with f a show ?thesis unfolding fresh_def by (auto simp: nth_append)
    next
      case False
      with j have "j = length S" by simp
      with f a show ?thesis by auto
    qed
  qed
qed

lemma fresh_butlast: "fresh H (S @ [p]) \<Longrightarrow> fresh H S"
  by (simp add: fresh_snoc)

lemma entry_mem: "c < 324 \<Longrightarrow> r < 9 \<Longrightarrow> places_of c ! r \<in> set (places_of c)"
  by (rule nth_mem) (simp add: places_of_length)

lemma entry_bound: "c < 324 \<Longrightarrow> r < 9 \<Longrightarrow> places_of c ! r < 729"
  by (rule places_of_bound [OF entry_mem])

lemma core_stack_valid:
  assumes "sd_core s st" and "j < sd_top st"
  shows "nat (st_cc st ! j) < 324" and "nat (st_cr st ! j) < 9"
    and "0 \<le> st_cc st ! j" and "0 \<le> st_cr st ! j"
  using assms unfolding sd_core_def by auto

lemma core_stack_bound:
  assumes "sd_core s st" and "n \<le> sd_top st" and "p \<in> set (sd_stack st n)"
  shows "p < 729"
proof -
  from assms(3) obtain j where j: "j < n" "p = places_of (nat (st_cc st ! j)) ! nat (st_cr st ! j)"
    by (auto simp: sd_stack_def)
  with assms(2) have "j < sd_top st" by simp
  from core_stack_valid(1,2) [OF assms(1) this] j show ?thesis by (simp add: entry_bound)
qed

lemma core_top: "sd_core s st \<Longrightarrow> sd_top st + length (hint_list s) \<le> 81"
  by (simp add: sd_core_def)

lemma core_applied_bound:
  assumes "sd_core s st" and "n \<le> sd_top st"
  shows "\<forall>a\<in>set (hint_list s @ sd_stack st n). a < 729"
    and "length (hint_list s @ sd_stack st n) \<le> 81"
  using assms core_stack_bound [OF assms] core_top [OF assms(1)] by (auto simp: hint_list_bound)

lemma st_fwd_simps [simp]:
  "st_i (st_fwd A p r2 st) = st_i st + 1" "st_dir (st_fwd A p r2 st) = 1"
  "st_c0 (st_fwd A p r2 st) = st_c0 st" "st_sr (st_fwd A p r2 st) = sr_of (A @ [p])"
  "st_sc (st_fwd A p r2 st) = sc_of (A @ [p])"
  "st_cr (st_fwd A p r2 st) = (st_cr st)[nat (st_i st) := int r2]"
  "st_cc (st_fwd A p r2 st) = st_cc st" "st_out (st_fwd A p r2 st) = st_out st"
  "st_stdout (st_fwd A p r2 st) = st_stdout st" "st_fault (st_fwd A p r2 st) = st_fault st"
  by (simp_all add: st_fwd_def)

lemma st_back_simps [simp]:
  "st_i (st_back A st) = st_i st - 1" "st_dir (st_back A st) = - 1"
  "st_c0 (st_back A st) = st_c0 st" "st_sr (st_back A st) = sr_of A"
  "st_sc (st_back A st) = sc_of A"
  "st_cr (st_back A st) = (st_cr st)[nat (st_i st) := - 1]"
  "st_cc (st_back A st) = st_cc st" "st_out (st_back A st) = st_out st"
  "st_stdout (st_back A st) = st_stdout st" "st_fault (st_back A st) = st_fault st"
  by (simp_all add: st_back_def)

lemma st_pick_simps [simp]:
  "st_i (st_pick cci c0 st) = st_i st" "st_dir (st_pick cci c0 st) = st_dir st"
  "st_c0 (st_pick cci c0 st) = c0" "st_sr (st_pick cci c0 st) = st_sr st"
  "st_sc (st_pick cci c0 st) = st_sc st" "st_cr (st_pick cci c0 st) = st_cr st"
  "st_cc (st_pick cci c0 st) = (st_cc st)[nat (st_i st) := cci]"
  "st_out (st_pick cci c0 st) = st_out st"
  "st_stdout (st_pick cci c0 st) = st_stdout st" "st_fault (st_pick cci c0 st) = st_fault st"
  by (simp_all add: st_pick_def)

lemma st_dead_simps [simp]:
  "st_i (st_dead cci c0 st) = st_i st - 1" "st_dir (st_dead cci c0 st) = - 1"
  "st_c0 (st_dead cci c0 st) = c0" "st_sr (st_dead cci c0 st) = st_sr st"
  "st_sc (st_dead cci c0 st) = st_sc st"
  "st_cr (st_dead cci c0 st) = (st_cr st)[nat (st_i st) := - 1]"
  "st_cc (st_dead cci c0 st) = (st_cc st)[nat (st_i st) := cci]"
  "st_out (st_dead cci c0 st) = st_out st"
  "st_stdout (st_dead cci c0 st) = st_stdout st" "st_fault (st_dead cci c0 st) = st_fault st"
  by (simp_all add: st_dead_def)

text \<open>Lines 139-146 on a state that satisfies the invariant and has a constraint at depth \<open>i\<close>.\<close>

lemma sd_choose_eq:
  assumes core: "sd_core s st" and i0: "0 \<le> st_i st"
    and iN: "nat (st_i st) + length (hint_list s) < 81"
    and cc: "0 \<le> st_cc st ! nat (st_i st)" "st_cc st ! nat (st_i st) < 324"
  defines "c \<equiv> nat (st_cc st ! nat (st_i st))"
    and "A \<equiv> hint_list s @ sd_stack st (nat (st_i st))"
  defines "r2 \<equiv> sd_next sd_genmat (sr_of A) c (nat (st_cr st ! nat (st_i st) + 1))"
  shows "sd_choose sd_genmat st =
           (if r2 < 9 then st_fwd A (places_of c ! r2) r2 st else st_back A st)"
  unfolding r2_def c_def
proof -
  let ?i = "nat (st_i st)"
  let ?c = "nat (st_cc st ! ?i)"
  let ?r2 = "sd_next sd_genmat (sr_of A) ?c (nat (st_cr st ! ?i + 1))"
  have c: "?c < 324" using cc by simp
  have ar: "aux_r sd_genmat ! ?c = places_of ?c" using c by (rule aux_r_nth)
  have dir: "st_dir st = 1 \<or> st_dir st = - 1" using core by (auto simp: sd_core_def)
  have nf: "\<not> st_i st < 0" using i0 by simp
  have fw: "sd_update sd_genmat (sr_of A, sc_of A) (places_of ?c ! ?r2) 1
            = (sr_of (A @ [places_of ?c ! ?r2]), sc_of (A @ [places_of ?c ! ?r2]))" if "?r2 < 9"
    using that c by (simp add: entry_bound sd_update_set)
  show "sd_choose sd_genmat st =
           (if ?r2 < 9 then st_fwd A (places_of ?c ! ?r2) ?r2 st else st_back A st)"
  proof (cases "st_dir st = 1")
    case True
    then have "sd_top st = ?i" by (simp add: sd_top_def)
    with core have v: "st_sr st = sr_of A" "st_sc st = sc_of A"
      by (simp_all add: sd_core_def A_def)
    show ?thesis
      using True nf fw by (simp add: sd_choose_def Let_def v ar st_fwd_def st_back_def)
  next
    case False
    with dir have d: "st_dir st = - 1" by simp
    then have top: "sd_top st = Suc ?i" using i0 by (simp add: sd_top_def nat_add_distrib)
    then have v: "0 \<le> st_cr st ! ?i" "nat (st_cr st ! ?i) < 9"
      using core_stack_valid [OF core, of ?i] by simp_all
    let ?p = "places_of ?c ! nat (st_cr st ! ?i)"
    have p: "?p < 729" using c v by (simp add: entry_bound)
    have "sd_stack st (Suc ?i) = sd_stack st ?i @ [?p]"
      by (simp add: sd_stack_Suc)
    with core top have w: "st_sr st = sr_of (A @ [?p])" "st_sc st = sc_of (A @ [?p])"
      by (simp_all add: sd_core_def A_def)
    have rv: "sd_update sd_genmat (sr_of (A @ [?p]), sc_of (A @ [?p])) ?p (- 1) = (sr_of A, sc_of A)"
      using p by (rule sd_update_revert)
    show ?thesis
      using d nf fw v(1) by (simp add: sd_choose_def Let_def w ar rv st_fwd_def st_back_def)
  qed
qed


lemma core_top_range:
  assumes "sd_core s st" and "0 \<le> st_i st"
  shows "nat (st_i st) \<le> sd_top st" and "sd_top st \<le> Suc (nat (st_i st))"
  using assms by (auto simp: sd_core_def sd_top_def)

lemma core_fresh_prefix:
  assumes "sd_core s st" and "n \<le> sd_top st"
  shows "fresh (hint_list s) (sd_stack st n)"
proof -
  have f: "fresh (hint_list s) (sd_stack st (sd_top st))" using assms(1) by (simp add: sd_core_def)
  show ?thesis
  proof (cases "n = sd_top st")
    case True
    with f show ?thesis by simp
  next
    case False
    have "fresh H (take n S)" if "fresh H S" for H S
      using that unfolding fresh_def by (auto simp: min_def)
    from this [OF f] assms(2) show ?thesis by (simp add: sd_stack_take)
  qed
qed

lemma core_fwd:
  assumes core: "sd_core s st" and i0: "0 \<le> st_i st"
    and iN: "nat (st_i st) + length (hint_list s) < 81"
    and cc: "0 \<le> st_cc st ! nat (st_i st)" "st_cc st ! nat (st_i st) < 324"
    and r2: "r2 < 9"
    and free: "sr_of (hint_list s @ sd_stack st (nat (st_i st)))
                 ! (places_of (nat (st_cc st ! nat (st_i st))) ! r2) = 0"
  defines "p \<equiv> places_of (nat (st_cc st ! nat (st_i st))) ! r2"
    and "A \<equiv> hint_list s @ sd_stack st (nat (st_i st))"
  shows "sd_core s (st_fwd A p r2 st)"
    and "sd_top (st_fwd A p r2 st) = Suc (nat (st_i st))"
    and "sd_stack (st_fwd A p r2 st) (Suc (nat (st_i st))) = sd_stack st (nat (st_i st)) @ [p]"
proof -
  let ?i = "nat (st_i st)"
  let ?st = "st_fwd A p r2 st"
  let ?H = "hint_list s"
  have len: "length (st_cr st) = 81" "length (st_cc st) = 81" using core by (simp_all add: sd_core_def)
  have i81: "?i < 81" using iN by simp
  show top: "sd_top ?st = Suc ?i" using i0 by (simp add: sd_top_def nat_add_distrib)
  have pre: "sd_stack ?st ?i = sd_stack st ?i"
    by (rule sd_stack_cong) simp
  show stk: "sd_stack ?st (Suc ?i) = sd_stack st ?i @ [p]"
    using i81 len pre by (simp add: sd_stack_Suc p_def)
  have c: "nat (st_cc st ! ?i) < 324" using cc by simp
  have p: "p < 729" using c r2 by (simp add: p_def entry_bound)
  note rng = core_top_range [OF core i0]
  have bnd: "\<forall>a\<in>set A. a < 729" "length A \<le> 81"
    using core_applied_bound [OF core rng(1)] by (simp_all add: A_def)
  have "\<forall>a\<in>set A. \<not> clash a p"
    using sr_of_zero [OF p bnd(2) bnd(1)] free by (simp add: A_def p_def)
  then have fr: "fresh ?H (sd_stack st ?i @ [p])"
    using core_fresh_prefix [OF core rng(1)] by (simp add: fresh_snoc A_def)
  have valid: "0 \<le> st_cr ?st ! j \<and> st_cr ?st ! j < 9 \<and> 0 \<le> st_cc ?st ! j \<and> st_cc ?st ! j < 324"
    if "j < Suc ?i" for j
  proof (cases "j = ?i")
    case True
    with cc r2 i81 len show ?thesis by simp
  next
    case False
    with that rng have "j < sd_top st" by simp
    with core False show ?thesis by (simp add: sd_core_def)
  qed
  have rest: "st_cr ?st ! j = - 1" if "Suc ?i \<le> j" "j < 81" for j
  proof -
    from that rng have "sd_top st \<le> j" "j \<noteq> ?i" by simp_all
    with core that show ?thesis by (simp add: sd_core_def)
  qed
  show "sd_core s ?st"
    unfolding sd_core_def top stk
    apply (intro conjI)
    subgoal using len by simp
    subgoal using len by simp
    subgoal using core by (simp add: sd_core_def)
    subgoal using core by (simp add: sd_core_def)
    subgoal using core by (simp add: sd_core_def)
    subgoal using core by (simp add: sd_core_def)
    subgoal using core by (simp add: sd_core_def)
    subgoal using i0 by simp
    subgoal using iN by simp
    subgoal using valid by blast
    subgoal using rest by blast
    subgoal by (simp add: A_def)
    subgoal by (simp add: A_def)
    subgoal by (rule fr)
    done
qed

lemma core_back:
  assumes core: "sd_core s st" and i0: "0 \<le> st_i st"
    and iN: "nat (st_i st) + length (hint_list s) < 81"
  defines "A \<equiv> hint_list s @ sd_stack st (nat (st_i st))"
  shows "sd_core s (st_back A st)"
    and "sd_top (st_back A st) = nat (st_i st)"
    and "sd_stack (st_back A st) (nat (st_i st)) = sd_stack st (nat (st_i st))"
proof -
  let ?i = "nat (st_i st)"
  let ?st = "st_back A st"
  have len: "length (st_cr st) = 81" "length (st_cc st) = 81" using core by (simp_all add: sd_core_def)
  have i81: "?i < 81" using iN by simp
  show top: "sd_top ?st = ?i" using i0 by (simp add: sd_top_def)
  show stk: "sd_stack ?st ?i = sd_stack st ?i"
    by (rule sd_stack_cong) simp
  note rng = core_top_range [OF core i0]
  have valid: "0 \<le> st_cr ?st ! j \<and> st_cr ?st ! j < 9 \<and> 0 \<le> st_cc ?st ! j \<and> st_cc ?st ! j < 324"
    if "j < ?i" for j
  proof -
    from that rng have "j < sd_top st" "j \<noteq> ?i" by simp_all
    with core show ?thesis by (simp add: sd_core_def)
  qed
  have rest: "st_cr ?st ! j = - 1" if "?i \<le> j" "j < 81" for j
  proof (cases "j = ?i")
    case True
    with i81 len show ?thesis by simp
  next
    case False
    with that rng have "sd_top st \<le> j" by simp
    with core that False show ?thesis by (simp add: sd_core_def)
  qed
  show "sd_core s ?st"
    unfolding sd_core_def top stk
    apply (intro conjI)
    subgoal using len by simp
    subgoal using len by simp
    subgoal using core by (simp add: sd_core_def)
    subgoal using core by (simp add: sd_core_def)
    subgoal using core by (simp add: sd_core_def)
    subgoal using core by (simp add: sd_core_def)
    subgoal using core by (simp add: sd_core_def)
    subgoal using i0 by simp
    subgoal using iN by simp
    subgoal using valid by blast
    subgoal using rest by blast
    subgoal by (simp add: A_def)
    subgoal by (simp add: A_def)
    subgoal by (rule core_fresh_prefix [OF core rng(1)])
    done
qed

lemma core_pick:
  assumes core: "sd_core s st" and dir: "st_dir st = 1" and c0: "c0 \<le> 324"
  shows "sd_core s (st_pick cci c0 st)"
    and "sd_top (st_pick cci c0 st) = nat (st_i st)"
    and "sd_stack (st_pick cci c0 st) (nat (st_i st)) = sd_stack st (nat (st_i st))"
proof -
  let ?i = "nat (st_i st)"
  let ?st = "st_pick cci c0 st"
  have top0: "sd_top st = ?i" using dir by (simp add: sd_top_def)
  show top: "sd_top ?st = ?i" using dir by (simp add: sd_top_def)
  show stk: "sd_stack ?st ?i = sd_stack st ?i"
    by (rule sd_stack_cong) simp
  show "sd_core s ?st"
    unfolding sd_core_def top stk
    apply (intro conjI)
    subgoal using core by (simp add: sd_core_def)
    subgoal using core by (simp add: sd_core_def)
    subgoal using core by (simp add: sd_core_def)
    subgoal using core by (simp add: sd_core_def)
    subgoal using core by (simp add: sd_core_def)
    subgoal using core by (simp add: sd_core_def)
    subgoal using c0 by simp
    subgoal using core by (simp add: sd_core_def)
    subgoal using core top0 by (simp add: sd_core_def)
    subgoal using core top0 by (simp add: sd_core_def)
    subgoal using core top0 by (simp add: sd_core_def)
    subgoal using core top0 by (simp add: sd_core_def)
    subgoal using core top0 by (simp add: sd_core_def)
    subgoal using core top0 by (simp add: sd_core_def)
    done
qed

lemma core_dead:
  assumes core: "sd_core s st" and dir: "st_dir st = 1" and c0: "c0 \<le> 324"
  shows "sd_core s (st_dead cci c0 st)"
    and "sd_top (st_dead cci c0 st) = nat (st_i st)"
    and "sd_stack (st_dead cci c0 st) (nat (st_i st)) = sd_stack st (nat (st_i st))"
proof -
  let ?i = "nat (st_i st)"
  let ?st = "st_dead cci c0 st"
  have i0: "0 \<le> st_i st" using core dir by (simp add: sd_core_def)
  have top0: "sd_top st = ?i" using dir by (simp add: sd_top_def)
  show top: "sd_top ?st = ?i" using i0 by (simp add: sd_top_def)
  show stk: "sd_stack ?st ?i = sd_stack st ?i"
    by (rule sd_stack_cong) simp
  have rest: "st_cr ?st ! j = - 1" if "?i \<le> j" "j < 81" for j
    using core top0 that by (cases "j = ?i") (simp_all add: sd_core_def)
  show "sd_core s ?st"
    unfolding sd_core_def top stk
    apply (intro conjI)
    subgoal using core by (simp add: sd_core_def)
    subgoal using core by (simp add: sd_core_def)
    subgoal using core by (simp add: sd_core_def)
    subgoal using core by (simp add: sd_core_def)
    subgoal using core by (simp add: sd_core_def)
    subgoal using core by (simp add: sd_core_def)
    subgoal using c0 by simp
    subgoal using i0 by simp
    subgoal using core top0 by (simp add: sd_core_def)
    subgoal using core top0 by (simp add: sd_core_def)
    subgoal using rest by blast
    subgoal using core top0 by (simp add: sd_core_def)
    subgoal using core top0 by (simp add: sd_core_def)
    subgoal using core top0 by (simp add: sd_core_def)
    done
qed

section \<open>One iteration of the loop\<close>

text \<open>Fewer than 81 placements leave some constraint open.\<close>

lemma open_constraint:
  assumes "length A < 81" and "\<forall>a\<in>set A. a < 729"
  shows "\<exists>c<324. sc_of A ! c = 0"
proof -
  let ?C = "set (concat (map cons_of A))"
  have "length (concat (map cons_of A)) = 4 * length A"
    by (induction A) simp_all
  then have "card ?C \<le> 4 * length A"
    using card_length [of "concat (map cons_of A)"] by simp
  then have "card ?C < card {0..<324::nat}" using assms(1) by simp
  then have "\<not> {0..<324} \<subseteq> ?C"
    using card_mono [of ?C "{0..<324}"] by auto
  then obtain c where c0: "c \<in> {0..<324}" "c \<notin> ?C" by blast
  then have c: "c < 324" by simp
  from c0(2) have "\<forall>a\<in>set A. c \<notin> set (cons_of a)" by auto
  with c assms show ?thesis
    using sc_of_zero [of c A] by (intro exI [of _ c]) simp
qed

text \<open>Lines 126-138 on a forward state below the last depth.\<close>

lemma sd_forward_eq:
  assumes core: "sd_core s st" and dir: "st_dir st = 1"
    and iN: "nat (st_i st) + length (hint_list s) < 81"
  defines "A \<equiv> hint_list s @ sd_stack st (nat (st_i st))"
  shows "\<exists>c<324. sc_of A ! c = 0 \<and>
           sd_scan sd_genmat (st_sr st) (st_sc st) 0 10 (st_cc st ! nat (st_i st)) (st_c0 st)
             = (sd_count sd_genmat (sr_of A) c, int c, c + 1) \<and>
           sd_forward sd_genmat st =
             (if sd_count sd_genmat (sr_of A) c = 0 then st_dead (int c) (c + 1) st
              else st_pick (int c) (c + 1) st)"
proof -
  have top: "sd_top st = nat (st_i st)" using dir by (simp add: sd_top_def)
  have v: "st_sr st = sr_of A" "st_sc st = sc_of A"
    using core top by (simp_all add: sd_core_def A_def)
  have c0: "st_c0 st \<le> 324" using core by (simp add: sd_core_def)
  have bnd: "\<forall>a\<in>set A. a < 729" "length A < 81"
    using core_applied_bound(1) [OF core, of "nat (st_i st)"] top iN by (simp_all add: A_def)
  from open_constraint [OF bnd(2) bnd(1)] have "\<exists>c<324. sc_of A ! c = 0" .
  from sd_scan_start(2) [OF c0 this, of sd_genmat "sr_of A" "st_cc st ! nat (st_i st)"]
  obtain c where c: "c < 324" "sc_of A ! c = 0"
    "sd_scan sd_genmat (sr_of A) (sc_of A) 0 10 (st_cc st ! nat (st_i st)) (st_c0 st)
       = (sd_count sd_genmat (sr_of A) c, int c, c + 1)" by blast
  have n9: "sd_count sd_genmat (sr_of A) c \<noteq> 10"
    using sd_count_le [of sd_genmat "sr_of A" c] by simp
  have "sd_forward sd_genmat st =
             (if sd_count sd_genmat (sr_of A) c = 0 then st_dead (int c) (c + 1) st
              else st_pick (int c) (c + 1) st)"
    using dir n9 by (simp add: sd_forward_def v c(3) st_dead_def st_pick_def)
  with c show ?thesis unfolding v by blast
qed

subsection \<open>Printing a solution\<close>

lemma length_paint [simp]: "length (paint S out) = length out"
  unfolding paint_def by (induction S arbitrary: out) simp_all

lemma paint_snoc: "paint (S @ [p]) out = (paint S out)[p div 9 := cell_char p]"
  by (simp add: paint_def)

lemma paint_other: "k \<notin> (\<lambda>p. p div 9) ` set S \<Longrightarrow> paint S out ! k = out ! k"
  by (induction S rule: rev_induct) (simp_all add: paint_snoc paint_def)

lemma paint_cases:
  "k < length out \<Longrightarrow> paint S out ! k = out ! k \<or> (\<exists>p\<in>set S. p div 9 = k \<and> paint S out ! k = cell_char p)"
proof (induction S rule: rev_induct)
  case Nil
  then show ?case by (simp add: paint_def)
next
  case (snoc p S)
  then show ?case
    by (cases "p div 9 = k") (auto simp: paint_snoc)
qed

lemma paint_in:
  "distinct (map (\<lambda>p. p div 9) S) \<Longrightarrow> p \<in> set S \<Longrightarrow> p div 9 < length out \<Longrightarrow>
   paint S out ! (p div 9) = cell_char p"
proof (induction S rule: rev_induct)
  case Nil
  then show ?case by simp
next
  case (snoc q S)
  show ?case
  proof (cases "p = q")
    case True
    with snoc.prems show ?thesis by (simp add: paint_snoc)
  next
    case False
    with snoc.prems have "p \<in> set S" "q div 9 \<noteq> p div 9" by auto
    with snoc show ?thesis by (simp add: paint_snoc)
  qed
qed

lemma sd_hint_cell_char: "sd_hint (cell_char p) = int (p mod 9)"
proof -
  have "p mod 9 < 9" by simp
  then have "(p mod 9 + 49) mod 256 = p mod 9 + 49" by simp
  then have "(of_char (cell_char p) :: nat) = p mod 9 + 49"
    by (simp add: cell_char_def)
  then show ?thesis by (simp add: sd_hint_def)
qed

lemma sd_hint_NUL [simp]: "sd_hint (CHR 0x00) = - 1"
  by (simp add: sd_hint_def)

lemma cell_constraint: "p div 9 \<in> set (cons_of p)"
proof -
  have "p div 81 = p div 9 div 9" by (simp add: div_mult2_eq)
  then have "9 * pl_row p + pl_col p = p div 9"
    by (simp add: pl_row_def pl_col_def)
  then show ?thesis by (simp add: cons_of_def)
qed

lemma same_cell_clash: "a div 9 = p div 9 \<Longrightarrow> clash a p"
  using cell_constraint [of a] cell_constraint [of p] by (auto simp: clash_def)

lemma hint_in_list:
  assumes "k < 81" and "0 \<le> sd_hint (s ! k)"
  shows "k * 9 + nat (sd_hint (s ! k)) \<in> set (hint_list s)"
    and "(k * 9 + nat (sd_hint (s ! k))) div 9 = k"
proof -
  show "k * 9 + nat (sd_hint (s ! k)) \<in> set (hint_list s)"
    using assms by (auto simp: hint_list_def hint_cells_bound)
  have "nat (sd_hint (s ! k)) < 9" using sd_hint_range [of "s ! k"] by linarith
  then show "(k * 9 + nat (sd_hint (s ! k))) div 9 = k" by simp
qed

lemma fresh_not_hint_cell:
  assumes "fresh (hint_list s) S" and "p \<in> set S" and "p div 9 < 81"
  shows "sd_hint (s ! (p div 9)) < 0"
proof (rule ccontr)
  assume "\<not> sd_hint (s ! (p div 9)) < 0"
  then have h: "0 \<le> sd_hint (s ! (p div 9))" by simp
  let ?h = "p div 9 * 9 + nat (sd_hint (s ! (p div 9)))"
  from hint_in_list [OF assms(3) h] have hl: "?h \<in> set (hint_list s)" and "?h div 9 = p div 9" .
  then have cl: "clash ?h p" by (intro same_cell_clash)
  from assms(2) obtain j where j: "j < length S" "S ! j = p" by (auto simp: in_set_conv_nth)
  with assms(1) hl have "\<not> clash ?h p" unfolding fresh_def by auto
  with cl show False by blast
qed

lemma fresh_distinct_cells:
  assumes "fresh H S"
  shows "distinct (map (\<lambda>p. p div 9) S)"
  using assms
proof (induction S rule: rev_induct)
  case Nil
  then show ?case by simp
next
  case (snoc p S)
  then have f: "fresh H S" and n: "\<forall>a\<in>set (H @ S). \<not> clash a p" by (simp_all add: fresh_snoc)
  have "p div 9 \<notin> (\<lambda>p. p div 9) ` set S"
  proof
    assume "p div 9 \<in> (\<lambda>p. p div 9) ` set S"
    then obtain a where "a \<in> set S" "a div 9 = p div 9" by auto
    with n same_cell_clash [of a p] show False by auto
  qed
  with snoc.IH [OF f] show ?case by simp
qed

lemma strlen_chars:
  assumes "81 \<le> strlen s" and "k < 81"
  shows "s ! k \<noteq> CHR 0x00" and "k < length s"
proof -
  let ?t = "takeWhile (\<lambda>ch. ch \<noteq> CHR 0x00) s"
  have k: "k < length ?t" using assms by (simp add: strlen_def c_string_def)
  then have "?t ! k \<in> set ?t" by (rule nth_mem)
  then have "?t ! k \<noteq> CHR 0x00" by (auto dest: set_takeWhileD)
  moreover have "?t ! k = s ! k" using k by (rule takeWhile_nth)
  ultimately show "s ! k \<noteq> CHR 0x00" by simp
  have "length ?t \<le> length s" by (rule length_takeWhile_le)
  with k show "k < length s" by simp
qed

lemma c_string_81:
  assumes "length out = 82" and "out ! 81 = CHR 0x00" and "\<forall>k<81. out ! k \<noteq> CHR 0x00"
  shows "c_string out = take 81 out"
  unfolding c_string_def
  by (rule takeWhile_eq_take_P_nth) (use assms in auto)

lemma sd_fill_paint:
  assumes "\<forall>j<n. 0 \<le> st_cc st ! j \<and> st_cc st ! j < 324"
  shows "fold (sd_fill sd_genmat (st_cc st) (st_cr st)) [0..<n] out = paint (sd_stack st n) out"
proof -
  have "fold (sd_fill sd_genmat (st_cc st) (st_cr st)) [0..<n] out
        = fold (\<lambda>j out. out[(places_of (nat (st_cc st ! j)) ! nat (st_cr st ! j)) div 9
                              := cell_char (places_of (nat (st_cc st ! j)) ! nat (st_cr st ! j))]) [0..<n] out"
    by (rule fold_cong) (use assms in \<open>auto simp: sd_fill_def Let_def aux_r_nth cell_char_def fun_eq_iff\<close>)
  then show ?thesis by (simp add: paint_def sd_stack_def fold_map comp_def)
qed

lemma st_emit_simps [simp]:
  "st_i (st_emit S st) = st_i st - 1" "st_dir (st_emit S st) = - 1"
  "st_c0 (st_emit S st) = st_c0 st" "st_sr (st_emit S st) = st_sr st"
  "st_sc (st_emit S st) = st_sc st" "st_cr (st_emit S st) = st_cr st"
  "st_cc (st_emit S st) = st_cc st" "st_out (st_emit S st) = paint S (st_out st)"
  "st_stdout (st_emit S st) = st_stdout st @ [take 81 (paint S (st_out st))]"
  "st_fault (st_emit S st) = st_fault st"
  by (simp_all add: st_emit_def)

text \<open>Lines 149-151 on a state that has reached the last depth.\<close>

lemma sd_print_eq:
  assumes core: "sd_core s st" and len: "81 \<le> strlen s" and i0: "0 \<le> st_i st"
    and iN: "\<not> nat (st_i st) + length (hint_list s) < 81"
  defines "S \<equiv> sd_stack st (nat (st_i st))"
  shows "sd_print sd_genmat st = st_emit S st"
    and "sd_core s (st_emit S st)"
    and "sd_top (st_emit S st) = nat (st_i st)"
    and "sd_stack (st_emit S st) (nat (st_i st)) = S"
    and "grid_ok s (take 81 (paint S (st_out st)))"
    and "st_dir st = 1" and "nat (st_i st) + length (hint_list s) = 81"
proof -
  let ?i = "nat (st_i st)"
  let ?out = "paint S (st_out st)"
  note rng = core_top_range [OF core i0]
  have tp: "sd_top st + length (hint_list s) \<le> 81" using core by (rule core_top)
  with rng iN have top0: "sd_top st = ?i" by simp
  show dir: "st_dir st = 1"
  proof (rule ccontr)
    assume "st_dir st \<noteq> 1"
    then have "sd_top st = Suc ?i" using i0 by (simp add: sd_top_def nat_add_distrib)
    with top0 show False by simp
  qed
  show eq: "?i + length (hint_list s) = 81" using tp top0 iN by simp
  have olen: "length (st_out st) = 82" and o81: "st_out st ! 81 = CHR 0x00"
    and ocond: "\<forall>k<81. st_out st ! k = s ! k \<or> sd_hint (s ! k) < 0 \<and> 0 \<le> sd_hint (st_out st ! k)"
    using core by (simp_all add: sd_core_def)
  have fr: "fresh (hint_list s) S" using core top0 by (simp add: sd_core_def S_def)
  have Sb: "p < 729" if "p \<in> set S" for p
    using core_stack_bound [OF core _ that [unfolded S_def]] top0 by simp
  have cell: "p div 9 < 81" if "p \<in> set S" for p using Sb [OF that] by simp
  have n81: "?out ! 81 = CHR 0x00"
  proof -
    have "81 \<notin> (\<lambda>p. p div 9) ` set S" using cell by fastforce
    then show ?thesis using o81 by (simp add: paint_other)
  qed
  have oc: "?out ! k = s ! k \<or> sd_hint (s ! k) < 0 \<and> 0 \<le> sd_hint (?out ! k)" if "k < 81" for k
  proof -
    from that olen have "k < length (st_out st)" by simp
    from paint_cases [OF this, of S]
    consider "?out ! k = st_out st ! k" | p where "p \<in> set S" "p div 9 = k" "?out ! k = cell_char p"
      by blast
    then show ?thesis
    proof cases
      case 1
      with ocond that show ?thesis by simp
    next
      case 2
      from fresh_not_hint_cell [OF fr 2(1)] 2(2) that have "sd_hint (s ! k) < 0" by simp
      with 2(3) show ?thesis by (simp add: sd_hint_cell_char)
    qed
  qed
  have nz: "\<forall>k<81. ?out ! k \<noteq> CHR 0x00"
  proof (intro allI impI)
    fix k :: nat assume k: "k < 81"
    from oc [OF k] show "?out ! k \<noteq> CHR 0x00"
    proof
      assume "?out ! k = s ! k"
      with strlen_chars(1) [OF len k] show ?thesis by simp
    next
      assume "sd_hint (s ! k) < 0 \<and> 0 \<le> sd_hint (?out ! k)"
      then show ?thesis by auto
    qed
  qed
  have cs: "c_string ?out = take 81 ?out"
    by (rule c_string_81) (use olen n81 nz in simp_all)
  have valid: "\<forall>j<?i. 0 \<le> st_cc st ! j \<and> st_cc st ! j < 324"
    using core top0 by (simp add: sd_core_def)
  show "sd_print sd_genmat st = st_emit S st"
    unfolding sd_print_def Let_def sd_fill_paint [OF valid] S_def [symmetric] cs
    by (simp add: st_emit_def)
  show top: "sd_top (st_emit S st) = ?i" using i0 by (simp add: sd_top_def)
  show stk: "sd_stack (st_emit S st) ?i = S"
    unfolding S_def by (rule sd_stack_cong) simp
  show "grid_ok s (take 81 ?out)"
    unfolding grid_ok_def
  proof (intro conjI allI impI)
    show "length (take 81 ?out) = 81" using olen by simp
    fix k :: nat assume "k < 81" "0 \<le> sd_hint (s ! k)"
    with oc [of k] show "take 81 ?out ! k = s ! k" by auto
  qed
  show "sd_core s (st_emit S st)"
    unfolding sd_core_def top stk
    apply (intro conjI)
    subgoal using core by (simp add: sd_core_def)
    subgoal using core by (simp add: sd_core_def)
    subgoal using olen by simp
    subgoal using n81 by simp
    subgoal using oc by simp
    subgoal using core by (simp add: sd_core_def)
    subgoal using core by (simp add: sd_core_def)
    subgoal using i0 by simp
    subgoal using eq by simp
    subgoal using core top0 by (simp add: sd_core_def)
    subgoal using core top0 by (simp add: sd_core_def)
    subgoal using core top0 by (simp add: sd_core_def S_def)
    subgoal using core top0 by (simp add: sd_core_def S_def)
    subgoal by (rule fr)
    done
qed

text \<open>Lines 139-146 keep the invariant and print nothing.\<close>

lemma core_cr_range:
  assumes "sd_core s st" and "j < 81"
  shows "- 1 \<le> st_cr st ! j" and "st_cr st ! j < 9"
proof -
  have "- 1 \<le> st_cr st ! j \<and> st_cr st ! j < 9"
  proof (cases "j < sd_top st")
    case True
    from core_stack_valid(4,2) [OF assms(1) True] show ?thesis by simp
  next
    case False
    with assms have "st_cr st ! j = - 1" by (simp add: sd_core_def)
    then show ?thesis by simp
  qed
  then show "- 1 \<le> st_cr st ! j" and "st_cr st ! j < 9" by simp_all
qed

lemma sd_choose_core:
  assumes core: "sd_core s st" and i0: "0 \<le> st_i st"
    and iN: "nat (st_i st) + length (hint_list s) < 81"
    and cc: "0 \<le> st_cc st ! nat (st_i st)" "st_cc st ! nat (st_i st) < 324"
  shows "sd_core s (sd_choose sd_genmat st)"
    and "st_stdout (sd_choose sd_genmat st) = st_stdout st"
proof -
  let ?i = "nat (st_i st)"
  let ?c = "nat (st_cc st ! ?i)"
  let ?A = "hint_list s @ sd_stack st ?i"
  let ?r2 = "sd_next sd_genmat (sr_of ?A) ?c (nat (st_cr st ! ?i + 1))"
  note eq = sd_choose_eq [OF core i0 iN cc]
  have i81: "?i < 81" using iN by simp
  have "nat (st_cr st ! ?i + 1) \<le> 9"
    using core_cr_range [OF core i81] by simp
  note nx = sd_next_spec [OF this, of sd_genmat "sr_of ?A" ?c]
  have ar: "aux_r sd_genmat ! ?c = places_of ?c" using cc by (simp add: aux_r_nth)
  show "st_stdout (sd_choose sd_genmat st) = st_stdout st"
    unfolding eq by simp
  show "sd_core s (sd_choose sd_genmat st)"
  proof (cases "?r2 < 9")
    case True
    with nx have "sr_of ?A ! (places_of ?c ! ?r2) = 0" by (simp add: ar)
    from core_fwd(1) [OF core i0 iN cc True this] True show ?thesis
      unfolding eq by simp
  next
    case False
    with core_back(1) [OF core i0 iN] show ?thesis unfolding eq by simp
  qed
qed

subsection \<open>The start state\<close>

lemma sd_start_eq:
  "sd_start sd_genmat s =
     \<lparr>st_i = 0, st_dir = 1, st_c0 = 0, st_sr = sr_of (hint_list s), st_sc = sc_of (hint_list s),
      st_cr = replicate 81 (- 1), st_cc = replicate 81 (- 1),
      st_out = map (\<lambda>i. s ! i) [0..<81] @ [CHR 0x00], st_stdout = [], st_fault = False\<rparr>"
  by (simp add: sd_start_def sd_init_eq list_update_append)

lemma sd_start_core: "sd_core s (sd_start sd_genmat s)"
proof -
  have top: "sd_top (sd_start sd_genmat s) = 0" by (simp add: sd_start_eq sd_top_def)
  have o: "(map (\<lambda>i. s ! i) [0..<81] @ [CHR 0x00]) ! k = s ! k" if "k < 81" for k
    using that by (simp add: nth_append)
  have o81: "(map (\<lambda>i. s ! i) [0..<81] @ [CHR 0x00]) ! 81 = CHR 0x00"
    by (simp add: nth_append)
  show ?thesis
    unfolding sd_core_def top
    apply (intro conjI)
    subgoal by (simp add: sd_start_eq)
    subgoal by (simp add: sd_start_eq)
    subgoal by (simp add: sd_start_eq)
    subgoal using o81 by (simp add: sd_start_eq)
    subgoal using o by (simp add: sd_start_eq)
    subgoal by (simp add: sd_start_eq)
    subgoal by (simp add: sd_start_eq)
    subgoal by (simp add: sd_start_eq)
    subgoal using hint_list_length [of s] by simp
    subgoal by simp
    subgoal by (simp add: sd_start_eq)
    subgoal by (simp add: sd_start_eq sd_stack_def)
    subgoal by (simp add: sd_start_eq sd_stack_def)
    subgoal by (simp add: sd_stack_def)
    done
qed

subsection \<open>The invariant holds throughout\<close>

lemma sd_step_inv:
  assumes len: "81 \<le> strlen s" and inv: "sd_inv s st" and run: "sd_running st"
  shows "sd_inv s (sd_step sd_genmat (int (length (hint_list s))) st)"
proof -
  let ?H = "hint_list s"
  let ?i = "nat (st_i st)"
  from inv run have core: "sd_core s st" and outs: "\<forall>g\<in>set (st_stdout st). grid_ok s g"
    and i0: "0 \<le> st_i st"
    by (simp_all add: sd_inv_def sd_running_def)
  have lt: "st_i st < 81 - int (length ?H) \<longleftrightarrow> ?i + length ?H < 81" using i0 by linarith
  show ?thesis
  proof (cases "?i + length ?H < 81")
    case False
    note pr = sd_print_eq [OF core len i0 False]
    from False lt have "sd_step sd_genmat (int (length ?H)) st = st_emit (sd_stack st ?i) st"
      by (simp add: sd_step_def pr(1))
    with pr(2,5) outs show ?thesis by (simp add: sd_inv_def)
  next
    case iN: True
    then have step: "sd_step sd_genmat (int (length ?H)) st = sd_choose sd_genmat (sd_forward sd_genmat st)"
      using lt by (simp add: sd_step_def)
    have dir: "st_dir st = 1 \<or> st_dir st = - 1" using core by (auto simp: sd_core_def)
    show ?thesis
    proof (cases "st_dir st = 1")
      case False
      with dir have d: "st_dir st = - 1" by simp
      then have fw: "sd_forward sd_genmat st = st" by (simp add: sd_forward_def)
      have "?i < sd_top st" using d i0 by (simp add: sd_top_def)
      from core_stack_valid(3,1) [OF core this]
      have cc: "0 \<le> st_cc st ! ?i" "st_cc st ! ?i < 324" by simp_all
      from sd_choose_core [OF core i0 iN cc] outs show ?thesis
        unfolding step fw by (simp add: sd_inv_def)
    next
      case True
      from sd_forward_eq [OF core True iN] obtain c where c: "c < 324"
        and fw: "sd_forward sd_genmat st =
             (if sd_count sd_genmat (sr_of (?H @ sd_stack st ?i)) c = 0 then st_dead (int c) (c + 1) st
              else st_pick (int c) (c + 1) st)" by blast
      have c1: "c + 1 \<le> 324" using c by simp
      have len81: "length (st_cc st) = 81" using core by (simp add: sd_core_def)
      have i81: "?i < 81" using iN by simp
      show ?thesis
      proof (cases "sd_count sd_genmat (sr_of (?H @ sd_stack st ?i)) c = 0")
        case False
        let ?st = "st_pick (int c) (c + 1) st"
        have e: "sd_forward sd_genmat st = ?st" using fw False by simp
        note cp = core_pick [OF core True c1, of "int c"]
        have cc: "0 \<le> st_cc ?st ! nat (st_i ?st)" "st_cc ?st ! nat (st_i ?st) < 324"
          using c i81 len81 by simp_all
        from sd_choose_core [OF cp(1) _ _ cc] i0 iN outs show ?thesis
          unfolding step e by (simp add: sd_inv_def)
      next
        case dead: True
        let ?st = "st_dead (int c) (c + 1) st"
        have e: "sd_forward sd_genmat st = ?st" using fw dead by simp
        note cd = core_dead [OF core True c1, of "int c"]
        show ?thesis
        proof (cases "st_i st = 0")
          case True
          then have "sd_choose sd_genmat ?st = ?st\<lparr>st_fault := True\<rparr>"
            by (simp add: sd_choose_def)
          with outs show ?thesis unfolding step e by (simp add: sd_inv_def)
        next
          case False
          with i0 have i1: "0 \<le> st_i ?st" "nat (st_i ?st) + length ?H < 81"
            using iN by simp_all
          have "nat (st_i ?st) < sd_top ?st" using False i0 cd(2) by simp
          from core_stack_valid(3,1) [OF cd(1) this]
          have cc: "0 \<le> st_cc ?st ! nat (st_i ?st)" "st_cc ?st ! nat (st_i ?st) < 324" by simp_all
          from sd_choose_core [OF cd(1) i1 cc] outs show ?thesis
            unfolding step e by (simp add: sd_inv_def)
        qed
      qed
    qed
  qed
qed

lemma sd_reach_inv:
  assumes "81 \<le> strlen s" and "sd_reach sd_genmat s st"
  shows "sd_inv s st"
  using assms(2)
proof (induction rule: sd_reach.induct)
  case reach_start
  show ?case by (simp add: sd_inv_def sd_start_core) (simp add: sd_start_eq)
next
  case (reach_step st)
  then show ?case using sd_step_inv [OF assms(1)] by (simp add: sd_hints_eq)
qed

lemma sd_solve_reach:
  assumes "sd_solve aux s = Some st"
  shows "sd_reach aux s st" and "\<not> sd_running st"
proof -
  show "sd_reach aux s st"
    by (rule while_option_rule [where P = "sd_reach aux s", OF _ assms [unfolded sd_solve_def]])
       (auto intro: sd_reach.intros)
  show "\<not> sd_running st"
    using assms unfolding sd_solve_def by (rule while_option_stop)
qed

section \<open>Digits and concrete inputs\<close>

lemma sd_hint_digit: "0 \<le> sd_hint ch \<longleftrightarrow> ch \<in> set ''123456789''"
proof
  assume "ch \<in> set ''123456789''"
  then show "0 \<le> sd_hint ch" by (auto simp: sd_hint_def)
next
  assume h: "0 \<le> sd_hint ch"
  define n where "n = (of_char ch :: nat)"
  from h have "49 \<le> n \<and> n \<le> 57" unfolding sd_hint_def Let_def n_def by (simp split: if_splits)
  then have "n \<in> {49, 50, 51, 52, 53, 54, 55, 56, 57}" by auto
  then have "n \<in> (of_char :: char \<Rightarrow> nat) ` set ''123456789''" by simp
  then obtain c where c: "c \<in> set ''123456789''" "(of_char ch :: nat) = of_char c"
    unfolding n_def by blast
  from c(2) have "ch = c" by (simp only: of_char_eq_iff)
  with c(1) show "ch \<in> set ''123456789''" by simp
qed

lemma hint_cells_all:
  "\<forall>k<n. 0 \<le> sd_hint (s ! k) \<Longrightarrow> hint_cells s n = [0..<n]"
  by (simp add: hint_cells_def)

lemma hint_cells_none:
  "\<forall>k<n. sd_hint (s ! k) < 0 \<Longrightarrow> hint_cells s n = []"
  by (auto simp: hint_cells_def filter_empty_conv)

lemma while_option_done: "\<not> b s \<Longrightarrow> while_option b c s = Some s"
  by (subst while_option_unfold) simp

lemma while_option_step: "b s \<Longrightarrow> while_option b c s = while_option b c (c s)"
  by (subst while_option_unfold) simp

lemma strlen_le: "strlen s \<le> length s"
  by (simp add: strlen_def c_string_def length_takeWhile_le)

text \<open>An input in which every cell is a hint is printed back at once.\<close>

lemma sd_solve_full:
  assumes len: "81 \<le> strlen s" and full: "\<forall>k<81. 0 \<le> sd_hint (s ! k)"
  shows "sd_solve sd_genmat s = Some (st_emit [] (sd_start sd_genmat s))"
    and "st_stdout (st_emit [] (sd_start sd_genmat s)) = [take 81 s]"
    and "sd_reach sd_genmat s (st_emit [] (sd_start sd_genmat s))"
proof -
  let ?st = "sd_start sd_genmat s"
  have H: "length (hint_list s) = 81"
    using hint_cells_all [OF full] by (simp add: hint_list_def)
  have run: "sd_running ?st" by (simp add: sd_running_def sd_start_eq)
  have i: "st_i ?st = 0" by (simp add: sd_start_eq)
  have "\<not> nat (st_i ?st) + length (hint_list s) < 81" using H i by simp
  note pr = sd_print_eq [OF sd_start_core len _ this]
  have stk: "sd_stack ?st (nat (st_i ?st)) = []" by (simp add: i sd_stack_def)
  have step: "sd_step sd_genmat (sd_hints sd_genmat s) ?st = st_emit [] ?st"
    using pr(1) i H stk by (simp add: sd_step_def sd_hints_eq)
  have stop: "\<not> sd_running (st_emit [] ?st)" by (simp add: sd_running_def i)
  show "sd_solve sd_genmat s = Some (st_emit [] ?st)"
    unfolding sd_solve_def
    using while_option_step [of sd_running ?st "sd_step sd_genmat (sd_hints sd_genmat s)"] run
      while_option_done [of sd_running "st_emit [] ?st" "sd_step sd_genmat (sd_hints sd_genmat s)"] stop
    by (simp add: step)
  have "take 81 (map (\<lambda>i. s ! i) [0..<81] @ [CHR 0x00]) = take 81 s"
    using len strlen_le [of s] by (intro nth_equalityI) (simp_all add: nth_append min_def)
  then show "st_stdout (st_emit [] ?st) = [take 81 s]"
    using len strlen_le [of s] by (simp add: sd_start_eq paint_def)
  show "sd_reach sd_genmat s (st_emit [] ?st)"
    using sd_reach.reach_step [OF sd_reach.reach_start run] step by simp
qed

lemma strlen_no_NUL: "CHR 0x00 \<notin> set s \<Longrightarrow> strlen s = length s"
proof -
  assume "CHR 0x00 \<notin> set s"
  then have e: "takeWhile (\<lambda>ch. ch \<noteq> CHR 0x00) s = s"
    by (auto simp: takeWhile_eq_all_conv)
  show ?thesis unfolding strlen_def c_string_def e ..
qed

lemma all_hints_list: "list_all (\<lambda>ch. 0 \<le> sd_hint ch) s \<Longrightarrow> \<forall>k<length s. 0 \<le> sd_hint (s ! k)"
  by (simp add: list_all_length)

lemma no_hints_list: "list_all (\<lambda>ch. sd_hint ch < 0) s \<Longrightarrow> \<forall>k<length s. sd_hint (s ! k) < 0"
  by (simp add: list_all_length)

lemma ex_full_facts:
  "length ex_full = 81" "strlen ex_full = 81" "\<forall>k<81. 0 \<le> sd_hint (ex_full ! k)"
proof -
  show l: "length ex_full = 81" by (simp add: ex_full_def)
  have "CHR 0x00 \<notin> set ex_full" by (simp add: ex_full_def)
  then show "strlen ex_full = 81" using l by (simp add: strlen_no_NUL)
  have "list_all (\<lambda>ch. 0 \<le> sd_hint ch) ex_full" by (simp add: ex_full_def sd_hint_def)
  from all_hints_list [OF this] show "\<forall>k<81. 0 \<le> sd_hint (ex_full ! k)" using l by simp
qed

lemma ex_twice_facts:
  "length ex_twice = 81" "strlen ex_twice = 81" "\<forall>k<81. 0 \<le> sd_hint (ex_twice ! k)"
proof -
  show l: "length ex_twice = 81" by (simp add: ex_twice_def)
  have "CHR 0x00 \<notin> set ex_twice" by (simp add: ex_twice_def)
  then show "strlen ex_twice = 81" using l by (simp add: strlen_no_NUL)
  have "list_all (\<lambda>ch. 0 \<le> sd_hint ch) ex_twice" by (simp add: ex_twice_def sd_hint_def)
  from all_hints_list [OF this] show "\<forall>k<81. 0 \<le> sd_hint (ex_twice ! k)" using l by simp
qed

lemma ex_blank_facts:
  "length ex_blank = 81" "strlen ex_blank = 81" "hint_list ex_blank = []"
proof -
  show l: "length ex_blank = 81" by (simp add: ex_blank_def)
  have "CHR 0x00 \<notin> set ex_blank" by (simp add: ex_blank_def)
  then show "strlen ex_blank = 81" using l by (simp add: strlen_no_NUL)
  have "list_all (\<lambda>ch. sd_hint ch < 0) ex_blank" by (simp add: ex_blank_def sd_hint_def)
  from no_hints_list [OF this] have "\<forall>k<81. sd_hint (ex_blank ! k) < 0" using l by simp
  then show "hint_list ex_blank = []" by (simp add: hint_list_def hint_cells_none)
qed


lemma cell_constraint_only:
  assumes "a < 729" and "c < 81"
  shows "c \<in> set (cons_of a) \<longleftrightarrow> a div 9 = c"
proof -
  have "a div 81 = a div 9 div 9" by (simp add: div_mult2_eq)
  then have "9 * pl_row a + pl_col a = a div 9"
    by (simp add: pl_row_def pl_col_def)
  with cons_of_mem [OF assms(1), of c] assms(2) show ?thesis by simp
qed








section \<open>Claims about every run of the search: C2, C6, C8, C10\<close>

lemma count_two:
  "distinct xs \<Longrightarrow> a \<in> set xs \<Longrightarrow> b \<in> set xs \<Longrightarrow> a \<noteq> b \<Longrightarrow> f a = d \<Longrightarrow> f b = d \<Longrightarrow>
   2 \<le> count_list (map f xs) d"
proof (induction xs)
  case Nil
  then show ?case by simp
next
  case (Cons x xs)
  have one: "1 \<le> count_list (map f xs) d" if "y \<in> set xs" "f y = d" for y
  proof -
    from that have "d \<in> set (map f xs)" by auto
    then have "count_list (map f xs) d \<noteq> 0" by (simp add: count_list_0_iff)
    then show ?thesis by simp
  qed
  show ?case
  proof (cases "a = x \<or> b = x")
    case True
    with Cons.prems one show ?thesis by auto
  next
    case False
    with Cons have "2 \<le> count_list (map f xs) d" by auto
    then show ?thesis by simp
  qed
qed

lemma row_cells_unit: "i < 9 \<Longrightarrow> row_cells i \<in> set sd_units"
  by (simp add: sd_units_def)

lemma row_cells_mem: "k < 81 \<Longrightarrow> k \<in> set (row_cells (k div 9))"
proof -
  assume "k < 81"
  have "k = 9 * (k div 9) + k mod 9" by simp
  moreover have "k mod 9 < 9" by simp
  ultimately show ?thesis unfolding row_cells_def by (metis atLeast0LessThan imageI lessThan_iff set_map set_upt)
qed

lemma row_cells_distinct: "distinct (row_cells i)"
  by (simp add: row_cells_def distinct_map inj_on_def)

lemma valid_grid_row:
  assumes v: "valid_grid g" and k: "k1 < 81" "k2 < 81" "k1 \<noteq> k2" "k1 div 9 = k2 div 9"
    and d: "g ! k1 \<in> set ''123456789''"
  shows "g ! k1 \<noteq> g ! k2"
proof
  assume e: "g ! k1 = g ! k2"
  let ?u = "row_cells (k1 div 9)"
  have "k1 div 9 < 9" using k(1) by simp
  then have u: "?u \<in> set sd_units" by (rule row_cells_unit)
  have m: "k1 \<in> set ?u" "k2 \<in> set ?u"
    using row_cells_mem [OF k(1)] row_cells_mem [OF k(2)] k(4) by simp_all
  from count_two [OF row_cells_distinct m k(3) refl e [symmetric]]
  have "2 \<le> count_list (map (\<lambda>k. g ! k) ?u) (g ! k1)" .
  moreover from v u d have "count_list (map (\<lambda>k. g ! k) ?u) (g ! k1) = 1"
    unfolding valid_grid_def by blast
  ultimately show False by simp
qed

text \<open>
  Claim C2: on every input of at least 81 characters, every line that \<^verbatim>\<open>sd_solve\<close> has
  printed at any point of its run (in particular when it returns, see \<open>sd_solve_reach\<close>) has
  81 characters, and every cell that holds a digit 1-9 in the input holds the same digit in
  that line.
\<close>

theorem sd_solve_keeps_hints:
  assumes "81 \<le> strlen s" and "sd_reach sd_genmat s st" and "g \<in> set (st_stdout st)"
    and "k < 81" and "s ! k \<in> set ''123456789''"
  shows "length g = 81 \<and> g ! k = s ! k"
proof -
  from sd_reach_inv [OF assms(1,2)] assms(3) have ok: "grid_ok s g" by (simp add: sd_inv_def)
  from assms(5) have "0 \<le> sd_hint (s ! k)" by (simp only: sd_hint_digit)
  with ok assms(4) show ?thesis unfolding grid_ok_def by blast
qed

theorem sd_solve_keeps_hints_witness:
  "81 \<le> strlen ex_full
   \<and> sd_solve sd_genmat ex_full = Some (st_emit [] (sd_start sd_genmat ex_full))
   \<and> sd_reach sd_genmat ex_full (st_emit [] (sd_start sd_genmat ex_full))
   \<and> ex_full \<in> set (st_stdout (st_emit [] (sd_start sd_genmat ex_full)))
   \<and> (7::nat) < 81 \<and> ex_full ! 7 \<in> set ''123456789''
   \<and> length ex_full = 81 \<and> ex_full ! 7 = CHR ''1''"
proof -
  have len: "81 \<le> strlen ex_full" by (simp add: ex_full_facts)
  note run = sd_solve_full [OF len ex_full_facts(3)]
  have out: "ex_full \<in> set (st_stdout (st_emit [] (sd_start sd_genmat ex_full)))"
    unfolding run(2) using ex_full_facts(1) by simp
  have d: "ex_full ! 7 \<in> set ''123456789''" "ex_full ! 7 = CHR ''1''" by (simp_all add: ex_full_def)
  from sd_solve_keeps_hints [OF len run(3) out _ d(1)] len run(1,3) out d ex_full_facts(1)
  show ?thesis by simp
qed

text \<open>
  Claim C6 does not hold: \<open>ex_twice\<close> has the digit 5 in cells 0 and 1 of row 0, all 81 cells
  are hints, so the loop on line 125 is not entered and line 150 prints the input back.
\<close>

theorem sd_solve_conflict_counterexample:
  "81 \<le> strlen ex_twice \<and> length ex_twice = 81
   \<and> ex_twice ! 0 = CHR ''5'' \<and> ex_twice ! 1 = CHR ''5'' \<and> (0::nat) div 9 = 1 div 9
   \<and> sd_solve sd_genmat ex_twice = Some (st_emit [] (sd_start sd_genmat ex_twice))
   \<and> st_stdout (st_emit [] (sd_start sd_genmat ex_twice)) = [ex_twice]"
proof -
  have len: "81 \<le> strlen ex_twice" by (simp add: ex_twice_facts)
  note run = sd_solve_full [OF len ex_twice_facts(3)]
  have "ex_twice ! 0 = CHR ''5''" "ex_twice ! 1 = CHR ''5''" by (simp_all add: ex_twice_def)
  with len run ex_twice_facts(1) show ?thesis by simp
qed

text \<open>
  Claim C6 as amended: when the input has the same digit in two different cells of one row,
  every line that \<^verbatim>\<open>sd_solve\<close> prints still has that digit in both cells, so no printed line
  is a valid Sudoku grid. (Lines may be printed, as the counterexample shows.)
\<close>

theorem sd_solve_conflict_kept:
  assumes "81 \<le> strlen s" and "sd_reach sd_genmat s st" and "g \<in> set (st_stdout st)"
    and "k1 < 81" and "k2 < 81" and "k1 \<noteq> k2" and "k1 div 9 = k2 div 9"
    and "s ! k1 \<in> set ''123456789''" and "s ! k2 = s ! k1"
  shows "g ! k1 = s ! k1 \<and> g ! k2 = s ! k1 \<and> \<not> valid_grid g"
proof -
  from sd_reach_inv [OF assms(1,2)] assms(3) have ok: "grid_ok s g" by (simp add: sd_inv_def)
  from assms(8,9) have h: "0 \<le> sd_hint (s ! k1)" "0 \<le> sd_hint (s ! k2)"
    by (simp_all only: sd_hint_digit)
  with ok assms(4,5,9) have g: "g ! k1 = s ! k1" "g ! k2 = s ! k1"
    unfolding grid_ok_def by metis+
  have "\<not> valid_grid g"
  proof
    assume "valid_grid g"
    from valid_grid_row [OF this assms(4,5,6,7)] g assms(8) show False by simp
  qed
  with g show ?thesis by simp
qed

theorem sd_solve_conflict_kept_witness:
  "81 \<le> strlen ex_twice
   \<and> sd_reach sd_genmat ex_twice (st_emit [] (sd_start sd_genmat ex_twice))
   \<and> ex_twice \<in> set (st_stdout (st_emit [] (sd_start sd_genmat ex_twice)))
   \<and> (0::nat) < 81 \<and> (1::nat) < 81 \<and> (0::nat) \<noteq> 1 \<and> (0::nat) div 9 = 1 div 9
   \<and> ex_twice ! 0 \<in> set ''123456789'' \<and> ex_twice ! 1 = ex_twice ! 0
   \<and> \<not> valid_grid ex_twice"
proof -
  have len: "81 \<le> strlen ex_twice" by (simp add: ex_twice_facts)
  note run = sd_solve_full [OF len ex_twice_facts(3)]
  have out: "ex_twice \<in> set (st_stdout (st_emit [] (sd_start sd_genmat ex_twice)))"
    unfolding run(2) using ex_twice_facts(1) by simp
  have d: "ex_twice ! 0 \<in> set ''123456789''" "ex_twice ! 1 = ex_twice ! 0" by (simp_all add: ex_twice_def)
  from sd_solve_conflict_kept [OF len run(3) out _ _ _ _ d] len run(3) out d
  show ?thesis by simp
qed

text \<open>
  Claim C8: whenever the scan runs (forward direction, depth \<^verbatim>\<open>i < 81 - hints\<close>) in a run on
  an input of at least 81 characters, some constraint has \<^verbatim>\<open>sc[c] == 0\<close> and the scan does not
  end with \<^verbatim>\<open>min == 10\<close>; so line 137 steps back only for \<^verbatim>\<open>min == 0\<close>.
\<close>

theorem sd_scan_min_not_10:
  assumes "81 \<le> strlen s" and "sd_reach sd_genmat s st" and "sd_running st"
    and "st_dir st = 1" and "st_i st < 81 - sd_hints sd_genmat s"
  shows "(\<exists>c<324. st_sc st ! c = 0)
         \<and> fst (sd_scan sd_genmat (st_sr st) (st_sc st) 0 10 (st_cc st ! nat (st_i st)) (st_c0 st)) \<noteq> 10"
proof -
  from sd_reach_inv [OF assms(1,2)] assms(3) have core: "sd_core s st" and i0: "0 \<le> st_i st"
    by (simp_all add: sd_inv_def sd_running_def)
  have iN: "nat (st_i st) + length (hint_list s) < 81"
    using assms(5) i0 by (simp add: sd_hints_eq)
  have "sd_top st = nat (st_i st)" using assms(4) by (simp add: sd_top_def)
  with core have sc: "st_sc st = sc_of (hint_list s @ sd_stack st (nat (st_i st)))"
    by (simp add: sd_core_def)
  from sd_forward_eq [OF core assms(4) iN] obtain c where c: "c < 324"
    "sc_of (hint_list s @ sd_stack st (nat (st_i st))) ! c = 0"
    "sd_scan sd_genmat (st_sr st) (st_sc st) 0 10 (st_cc st ! nat (st_i st)) (st_c0 st)
       = (sd_count sd_genmat (sr_of (hint_list s @ sd_stack st (nat (st_i st)))) c, int c, c + 1)"
    by blast
  have "sd_count sd_genmat (sr_of (hint_list s @ sd_stack st (nat (st_i st)))) c \<le> 9"
    by (rule sd_count_le)
  with c sc show ?thesis by auto
qed

theorem sd_scan_min_not_10_witness:
  "81 \<le> strlen ex_blank \<and> sd_reach sd_genmat ex_blank (sd_start sd_genmat ex_blank)
   \<and> sd_running (sd_start sd_genmat ex_blank) \<and> st_dir (sd_start sd_genmat ex_blank) = 1
   \<and> st_i (sd_start sd_genmat ex_blank) < 81 - sd_hints sd_genmat ex_blank
   \<and> fst (sd_scan sd_genmat (st_sr (sd_start sd_genmat ex_blank)) (st_sc (sd_start sd_genmat ex_blank))
           0 10 (st_cc (sd_start sd_genmat ex_blank) ! nat (st_i (sd_start sd_genmat ex_blank)))
           (st_c0 (sd_start sd_genmat ex_blank))) \<noteq> 10"
proof -
  have len: "81 \<le> strlen ex_blank" by (simp add: ex_blank_facts)
  have r: "sd_reach sd_genmat ex_blank (sd_start sd_genmat ex_blank)" by (rule sd_reach.reach_start)
  have run: "sd_running (sd_start sd_genmat ex_blank)" by (simp add: sd_running_def sd_start_eq)
  have d: "st_dir (sd_start sd_genmat ex_blank) = 1" by (simp add: sd_start_eq)
  have i: "st_i (sd_start sd_genmat ex_blank) < 81 - sd_hints sd_genmat ex_blank"
    by (simp add: sd_start_eq sd_hints_eq ex_blank_facts)
  from sd_scan_min_not_10 [OF len r run d i] len r run d i show ?thesis by blast
qed

text \<open>
  Claim C10: \<^verbatim>\<open>sd_solve\<close> reads its input only at the indices 0..80, so on two inputs that
  agree there it prints the same lines and ends in the same way; when it returns, it
  returns 0.
\<close>

theorem sd_solve_first_81:
  assumes "\<forall>i<81. s1 ! i = s2 ! i"
  shows "sd_solve aux s1 = sd_solve aux s2
         \<and> (\<forall>st. sd_solve aux s1 = Some st \<and> \<not> st_fault st \<longrightarrow> sd_retval st = Some 0)"
proof -
  have "sd_init aux s1 = sd_init aux s2"
    unfolding sd_init_def
    by (rule fold_cong) (use assms in \<open>auto simp: sd_init_step_def\<close>)
  then have "sd_start aux s1 = sd_start aux s2" "sd_hints aux s1 = sd_hints aux s2"
    by (simp_all add: sd_start_def sd_hints_def)
  then show ?thesis by (simp add: sd_solve_def sd_retval_def)
qed

theorem sd_solve_first_81_witness:
  "take 81 (ex_full @ [CHR 0x0A]) = take 81 ex_full
   \<and> sd_solve sd_genmat ex_full = sd_solve sd_genmat (ex_full @ [CHR 0x0A])
   \<and> sd_solve sd_genmat ex_full = Some (st_emit [] (sd_start sd_genmat ex_full))
   \<and> \<not> st_fault (st_emit [] (sd_start sd_genmat ex_full))
   \<and> sd_retval (st_emit [] (sd_start sd_genmat ex_full)) = Some 0"
proof -
  have a: "\<forall>i<81. ex_full ! i = (ex_full @ [CHR 0x0A]) ! i"
    by (simp add: nth_append ex_full_facts)
  have len: "81 \<le> strlen ex_full" by (simp add: ex_full_facts)
  note run = sd_solve_full [OF len ex_full_facts(3)]
  have nf: "\<not> st_fault (st_emit [] (sd_start sd_genmat ex_full))" by (simp add: sd_start_eq)
  have t: "take 81 (ex_full @ [CHR 0x0A]) = take 81 ex_full" by (simp add: ex_full_facts)
  from sd_solve_first_81 [OF a, of sd_genmat] t run(1) nf show ?thesis by simp
qed

section \<open>Grids, units and constraints\<close>

lemma pl_cell: "pl_row p = p div 9 div 9" "pl_col p = p div 9 mod 9"
  by (simp_all add: pl_row_def pl_col_def div_mult2_eq)

lemma upt3: "[0..<3] = [0, 1, 2::nat]"
  by (simp add: upt_rec)

lemma upt9: "[0..<9] = [0, 1, 2, 3, 4, 5, 6, 7, 8::nat]"
  by (simp add: upt_rec)

lemma row_cells_iff: "k \<in> set (row_cells i) \<longleftrightarrow> k div 9 = i"
proof
  assume "k \<in> set (row_cells i)"
  then have "k \<in> (\<lambda>j. 9 * i + j) ` {0..<9}" by (simp add: row_cells_def)
  then obtain j where "j < 9" "k = 9 * i + j" by force
  then show "k div 9 = i" by simp
next
  assume "k div 9 = i"
  then have e: "k = 9 * i + k mod 9" by auto
  have "k mod 9 \<in> {0..<9}" by simp
  then have "9 * i + k mod 9 \<in> (\<lambda>j. 9 * i + j) ` {0..<9}" by (rule imageI)
  then have "k \<in> (\<lambda>j. 9 * i + j) ` {0..<9}" using e by simp
  then show "k \<in> set (row_cells i)" by (simp add: row_cells_def)
qed

lemma col_cells_iff: "j < 9 \<Longrightarrow> k \<in> set (col_cells j) \<longleftrightarrow> k < 81 \<and> k mod 9 = j"
proof
  assume j: "j < 9" and "k \<in> set (col_cells j)"
  then have "k \<in> (\<lambda>i. 9 * i + j) ` {0..<9}" by (simp add: col_cells_def)
  then obtain i where "i < 9" "k = 9 * i + j" by force
  with j show "k < 81 \<and> k mod 9 = j" by simp
next
  assume j: "j < 9" and k: "k < 81 \<and> k mod 9 = j"
  then have e: "k = 9 * (k div 9) + j" by auto
  have "k div 9 < 9" using k by linarith
  then have "k div 9 \<in> {0..<9}" by simp
  then have "9 * (k div 9) + j \<in> (\<lambda>i. 9 * i + j) ` {0..<9}" by (rule imageI)
  then have "k \<in> (\<lambda>i. 9 * i + j) ` {0..<9}" using e by simp
  then show "k \<in> set (col_cells j)" by (simp add: col_cells_def)
qed

lemma divmod9:
  fixes q r :: nat
  assumes "r < 9"
  shows "(9 * q + r) div 9 = q \<and> (9 * q + r) mod 9 = r"
  using assms by simp

lemma cell_bound:
  fixes p :: nat
  assumes "p < 729"
  shows "p div 9 < 81"
  using less_mult_imp_div_less [of p 81 9] assms by simp

lemma box_cells_eq:
  "box_cells b = map (\<lambda>x. 27 * (b div 3) + 3 * (b mod 3) + x) [0, 1, 2, 9, 10, 11, 18, 19, 20]"
  by (simp add: box_cells_def upt3)

lemma box_cells_iff:
  assumes "b < 9"
  shows "k \<in> set (box_cells b) \<longleftrightarrow> k < 81 \<and> k div 9 div 3 = b div 3 \<and> k mod 9 div 3 = b mod 3"
proof -
  define R where "R = b div 3"
  define C where "C = b mod 3"
  have RC: "R < 3" "C < 3" using assms by (simp_all add: R_def C_def)
  have "set (box_cells b) = (\<Union>a\<in>{0..<3}. (\<lambda>e. 9 * (3 * R + a) + (3 * C + e)) ` {0..<3})"
    unfolding box_cells_def R_def C_def by (simp only: set_concat set_map set_upt image_image)
  then have "k \<in> set (box_cells b) \<longleftrightarrow> (\<exists>a\<in>{0..<3}. \<exists>e\<in>{0..<3}. k = 9 * (3 * R + a) + (3 * C + e))"
    by (simp only: UN_iff image_iff)
  also have "\<dots> \<longleftrightarrow> (\<exists>a<3. \<exists>e<3. k = 9 * (3 * R + a) + (3 * C + e))"
    by (simp only: atLeast0LessThan lessThan_iff Bex_def)
  finally have "k \<in> set (box_cells b) \<longleftrightarrow> (\<exists>a<3. \<exists>e<3. k = 9 * (3 * R + a) + (3 * C + e))" .
  also have "\<dots> \<longleftrightarrow> k < 81 \<and> k div 9 div 3 = R \<and> k mod 9 div 3 = C"
  proof
    assume "\<exists>a<3. \<exists>e<3. k = 9 * (3 * R + a) + (3 * C + e)"
    then obtain a e where ae: "a < 3" "e < 3" "k = 9 * (3 * R + a) + (3 * C + e)" by blast
    have ce: "3 * C + e < 9" using RC ae by linarith
    have ra: "3 * R + a < 9" using RC ae by linarith
    have d: "k div 9 = 3 * R + a" unfolding ae(3) using divmod9 [OF ce] by blast
    have m: "k mod 9 = 3 * C + e" unfolding ae(3) using divmod9 [OF ce] by blast
    have "9 * (3 * R + a) \<le> 72" using ra by simp
    then have "k < 81" unfolding ae(3) using ce by simp
    moreover have "k div 9 div 3 = R" unfolding d using ae(1) by simp
    moreover have "k mod 9 div 3 = C" unfolding m using ae(2) by simp
    ultimately show "k < 81 \<and> k div 9 div 3 = R \<and> k mod 9 div 3 = C" by blast
  next
    assume k: "k < 81 \<and> k div 9 div 3 = R \<and> k mod 9 div 3 = C"
    have "k = 9 * (k div 9) + k mod 9" by simp
    moreover have "k div 9 = 3 * R + k div 9 mod 3" using k by auto
    moreover have "k mod 9 = 3 * C + k mod 9 mod 3" using k by auto
    ultimately have "k = 9 * (3 * R + k div 9 mod 3) + (3 * C + k mod 9 mod 3)" by metis
    moreover have "k div 9 mod 3 < 3" "k mod 9 mod 3 < 3" by simp_all
    ultimately show "\<exists>a<3. \<exists>e<3. k = 9 * (3 * R + a) + (3 * C + e)" by blast
  qed
  finally show ?thesis by (simp add: R_def C_def)
qed

lemma nth_append_mid:
  assumes "length xs = 9" "length ys = 9" "9 \<le> t" "t < 18"
  shows "(xs @ ys @ zs) ! t = ys ! (t - 9)"
proof -
  have "(xs @ ys @ zs) ! t = (ys @ zs) ! (t - 9)"
    using nth_append_right [of xs t "ys @ zs"] assms by simp
  moreover have "t - 9 < length ys" using assms by linarith
  ultimately show ?thesis using nth_append_left [of "t - 9" ys zs] by simp
qed

lemma nth_append_last:
  assumes "length xs = 9" "length ys = 9" "18 \<le> t"
  shows "(xs @ ys @ zs) ! t = zs ! (t - 18)"
proof -
  have "(xs @ ys @ zs) ! t = (ys @ zs) ! (t - 9)"
    using nth_append_right [of xs t "ys @ zs"] assms by simp
  moreover have "length ys \<le> t - 9" using assms by linarith
  moreover have "t - 9 - 9 = t - 18" by simp
  ultimately show ?thesis using nth_append_right [of ys "t - 9" zs] assms(2) by simp
qed

lemma sd_units_nth:
  "t < 9 \<Longrightarrow> sd_units ! t = row_cells t"
  "9 \<le> t \<Longrightarrow> t < 18 \<Longrightarrow> sd_units ! t = col_cells (t - 9)"
  "18 \<le> t \<Longrightarrow> t < 27 \<Longrightarrow> sd_units ! t = box_cells (t - 18)"
proof -
  show "t < 9 \<Longrightarrow> sd_units ! t = row_cells t"
    by (simp add: sd_units_def nth_append)
  show "sd_units ! t = col_cells (t - 9)" if "9 \<le> t" "t < 18"
  proof -
    have "t - 9 < 9" using that by linarith
    then have "map col_cells [0..<9] ! (t - 9) = col_cells (t - 9)" by simp
    then show ?thesis
      unfolding sd_units_def using nth_append_mid [OF _ _ that, of "map row_cells [0..<9]" "map col_cells [0..<9]"]
      by simp
  qed
  show "sd_units ! t = box_cells (t - 18)" if "18 \<le> t" "t < 27"
  proof -
    have "t - 18 < 9" using that by linarith
    then have "map box_cells [0..<9] ! (t - 18) = box_cells (t - 18)" by simp
    then show ?thesis
      unfolding sd_units_def using nth_append_last [OF _ _ that(1), of "map row_cells [0..<9]" "map col_cells [0..<9]"]
      by simp
  qed
qed

lemma sd_units_length: "length sd_units = 27"
  by (simp add: sd_units_def)

lemma unit_cases:
  fixes t :: nat
  assumes "t < 27"
  obtains "t < 9" | "9 \<le> t" "t < 18" | "18 \<le> t" "t < 27"
  using assms by linarith

lemma unit_shape:
  assumes "t < 27"
  shows "length (sd_units ! t) = 9" and "distinct (sd_units ! t)"
    and "k \<in> set (sd_units ! t) \<Longrightarrow> k < 81"
proof -
  have r: "length (row_cells i) = 9 \<and> distinct (row_cells i)" for i
    by (simp add: row_cells_def distinct_map inj_on_def)
  have c: "length (col_cells i) = 9 \<and> distinct (col_cells i)" for i
    by (simp add: col_cells_def distinct_map inj_on_def)
  have b: "length (box_cells i) = 9 \<and> distinct (box_cells i)" for i
    by (simp add: box_cells_eq distinct_map inj_on_def)
  from assms show "length (sd_units ! t) = 9"
    by (rule unit_cases) (simp_all add: sd_units_nth r c b)
  from assms show "distinct (sd_units ! t)"
    by (rule unit_cases) (simp_all add: sd_units_nth r c b)
  assume k: "k \<in> set (sd_units ! t)"
  from assms show "k < 81"
  proof (rule unit_cases)
    assume "t < 9"
    with k have "k div 9 = t" by (simp add: sd_units_nth row_cells_iff)
    with \<open>t < 9\<close> show ?thesis by auto
  next
    assume "9 \<le> t" "t < 18"
    with k show ?thesis by (simp add: sd_units_nth col_cells_iff)
  next
    assume "18 \<le> t" "t < 27"
    with k show ?thesis by (simp add: sd_units_nth box_cells_iff)
  qed
qed

lemma sd_units_set: "u \<in> set sd_units \<longleftrightarrow> (\<exists>t<27. u = sd_units ! t)"
  using sd_units_length by (auto simp: in_set_conv_nth)

text \<open>A placement touches the constraint of unit \<open>t\<close> and digit \<open>d\<close> exactly when its cell
  lies in the unit and its digit is \<open>d\<close>.\<close>

lemma dec9_iff:
  fixes a a' k k' :: nat
  assumes "k < 9" "k' < 9"
  shows "9 * a + k = 9 * a' + k' \<longleftrightarrow> a = a' \<and> k = k'"
  using dec9 [OF assms] by auto

lemma box_index:
  fixes x y b :: nat
  assumes "y < 3"
  shows "x * 3 + y = b \<longleftrightarrow> x = b div 3 \<and> y = b mod 3"
  using assms by auto

lemma unit_con_mem:
  assumes t: "t < 27" and d: "d < 9" and p: "p < 729"
  shows "unit_con t d \<in> set (cons_of p) \<longleftrightarrow> p div 9 \<in> set (sd_units ! t) \<and> pl_dig p = d"
  using t
proof (rule unit_cases)
  assume t9: "t < 9"
  then have c: "unit_con t d = 162 + 9 * t + d" by (simp add: unit_con_def)
  have "162 + 9 * t + d < 243" "\<not> 162 + 9 * t + d < 162" using t9 d by linarith+
  then have "unit_con t d \<in> set (cons_of p) \<longleftrightarrow> 9 * pl_row p + pl_dig p = 9 * t + d"
    unfolding c using cons_of_mem [OF p, of "162 + 9 * t + d"] by simp
  also have "\<dots> \<longleftrightarrow> pl_row p = t \<and> pl_dig p = d"
    using dec9_iff [OF pl_bounds(3) d] .
  finally show ?thesis using t9 by (simp add: sd_units_nth row_cells_iff pl_cell)
next
  assume t9: "9 \<le> t" "t < 18"
  then have c: "unit_con t d = 243 + 9 * (t - 9) + d" by (simp add: unit_con_def)
  have "\<not> 243 + 9 * (t - 9) + d < 243" by simp
  then have "unit_con t d \<in> set (cons_of p) \<longleftrightarrow> 9 * pl_col p + pl_dig p = 9 * (t - 9) + d"
    unfolding c using cons_of_mem [OF p, of "243 + 9 * (t - 9) + d"] by simp
  also have "\<dots> \<longleftrightarrow> pl_col p = t - 9 \<and> pl_dig p = d"
    using dec9_iff [OF pl_bounds(3) d] .
  finally show ?thesis using t9 cell_bound [OF p] by (simp add: sd_units_nth col_cells_iff pl_cell)
next
  assume t9: "18 \<le> t" "t < 27"
  then have c: "unit_con t d = 81 + 9 * (t - 18) + d" by (simp add: unit_con_def)
  have "81 + 9 * (t - 18) + d < 162" "\<not> 81 + 9 * (t - 18) + d < 81" using t9 d by linarith+
  then have "unit_con t d \<in> set (cons_of p) \<longleftrightarrow>
             (pl_row p div 3 * 3 + pl_col p div 3) * 9 + pl_dig p = 9 * (t - 18) + d"
    unfolding c using cons_of_mem [OF p, of "81 + 9 * (t - 18) + d"] by simp
  also have "\<dots> \<longleftrightarrow> 9 * (pl_row p div 3 * 3 + pl_col p div 3) + pl_dig p = 9 * (t - 18) + d"
    by (simp only: mult.commute)
  also have "\<dots> \<longleftrightarrow> pl_row p div 3 * 3 + pl_col p div 3 = t - 18 \<and> pl_dig p = d"
    using dec9_iff [OF pl_bounds(3) d] .
  also have "\<dots> \<longleftrightarrow> (pl_row p div 3 = (t - 18) div 3 \<and> pl_col p div 3 = (t - 18) mod 3) \<and> pl_dig p = d"
  proof -
    have "pl_col p div 3 < 3" using pl_bounds(2) [of p] by simp
    from box_index [OF this] show ?thesis by simp
  qed
  finally show ?thesis using t9 cell_bound [OF p] by (simp add: sd_units_nth box_cells_iff pl_cell)
qed

lemma unit_con_bound: "t < 27 \<Longrightarrow> d < 9 \<Longrightarrow> unit_con t d < 324"
  by (rule unit_cases [of t]) (simp_all add: unit_con_def)

lemma constraint_cases:
  assumes "c < 324"
  obtains "c < 81" | t d where "t < 27" "d < 9" "c = unit_con t d"
proof (cases "c < 81")
  case True
  then show ?thesis by (rule that(1))
next
  case False
  consider "81 \<le> c" "c < 162" | "162 \<le> c" "c < 243" | "243 \<le> c" "c < 324"
    using False assms by linarith
  then show ?thesis
  proof cases
    case 1
    have "c = unit_con (18 + (c - 81) div 9) ((c - 81) mod 9)"
      using 1 by (simp add: unit_con_def)
    moreover have "18 + (c - 81) div 9 < 27" using 1 by simp
    ultimately show ?thesis using that(2) [of "18 + (c - 81) div 9" "(c - 81) mod 9"] by simp
  next
    case 2
    have "c = unit_con ((c - 162) div 9) ((c - 162) mod 9)"
      using 2 by (simp add: unit_con_def)
    moreover have "(c - 162) div 9 < 27" using 2 by simp
    ultimately show ?thesis using that(2) [of "(c - 162) div 9" "(c - 162) mod 9"] by simp
  next
    case 3
    have "(c - 243) div 9 < 9" using 3 by simp
    then have "c = unit_con (9 + (c - 243) div 9) ((c - 243) mod 9)"
      using 3 by (simp add: unit_con_def)
    moreover have "9 + (c - 243) div 9 < 27" using 3 by simp
    ultimately show ?thesis using that(2) [of "9 + (c - 243) div 9" "(c - 243) mod 9"] by simp
  qed
qed

section \<open>Valid grids and sets of placements\<close>

lemma cell_char_digit: "cell_char p \<in> set ''123456789''"
  using sd_hint_cell_char [of p] sd_hint_digit [of "cell_char p"] by simp

lemma cell_char_eq: "cell_char p = cell_char q \<longleftrightarrow> p mod 9 = q mod 9"
proof
  assume "cell_char p = cell_char q"
  then have "sd_hint (cell_char p) = sd_hint (cell_char q)" by simp
  then show "p mod 9 = q mod 9" by (simp add: sd_hint_cell_char)
next
  assume "p mod 9 = q mod 9"
  then show "cell_char p = cell_char q" by (simp add: cell_char_def)
qed

lemma hint_char:
  assumes "0 \<le> sd_hint ch"
  shows "cell_char (k * 9 + nat (sd_hint ch)) = ch"
proof -
  define n where "n = (of_char ch :: nat)"
  from assms have n: "49 \<le> n \<and> n \<le> 57" and h: "sd_hint ch = int n - 49"
    unfolding sd_hint_def Let_def n_def by (simp_all split: if_splits)
  have e: "nat (sd_hint ch) = n - 49" using h n by simp
  have "n - 49 < 9" using n by linarith
  then have "(k * 9 + (n - 49)) mod 9 = n - 49" by simp
  then have "(k * 9 + nat (sd_hint ch)) mod 9 + 49 = n" using n e by simp
  then have "cell_char (k * 9 + nat (sd_hint ch)) = char_of n" by (simp only: cell_char_def)
  then show ?thesis by (simp add: n_def)
qed

lemma digit_is_cell_char:
  assumes "ch \<in> set ''123456789''"
  obtains d where "d < 9" "ch = cell_char d"
proof -
  have h: "0 \<le> sd_hint ch" using assms by (simp only: sd_hint_digit)
  have "nat (sd_hint ch) < 9" using sd_hint_range [of ch] by linarith
  moreover have "ch = cell_char (nat (sd_hint ch))" using hint_char [OF h, of 0] by simp
  ultimately show ?thesis by (rule that)
qed

lemma count_list_map_filter: "count_list (map f xs) y = length (filter (\<lambda>x. f x = y) xs)"
  by (induction xs) auto

lemma count_one_unique:
  assumes "distinct xs" and "count_list (map f xs) y = 1"
  shows "\<exists>!x. x \<in> set xs \<and> f x = y"
proof -
  have "length (filter (\<lambda>x. f x = y) xs) = 1"
    using assms(2) by (simp add: count_list_map_filter)
  then obtain x where x: "filter (\<lambda>x. f x = y) xs = [x]"
    by (cases "filter (\<lambda>x. f x = y) xs") auto
  then have "set (filter (\<lambda>x. f x = y) xs) = {x}" by simp
  then have s: "{x' \<in> set xs. f x' = y} = {x}" by simp
  have "x' \<in> {x' \<in> set xs. f x' = y} \<longleftrightarrow> x' \<in> {x}" for x' by (simp only: s)
  then have r: "(x' \<in> set xs \<and> f x' = y) \<longleftrightarrow> x' = x" for x' by simp
  show ?thesis
  proof (rule ex1I [of _ x])
    show "x \<in> set xs \<and> f x = y" using r [of x] by simp
  next
    fix z
    assume "z \<in> set xs \<and> f z = y"
    then show "z = x" using r [of z] by simp
  qed
qed

lemma count_list_distinct: "distinct xs \<Longrightarrow> x \<in> set xs \<Longrightarrow> count_list xs x = 1"
  by (induction xs) (auto simp: count_list_0_iff)

lemma sum_list_indicator:
  "distinct ds \<Longrightarrow> sum_list (map (\<lambda>d. if x = d then 1 else 0) ds) = (if x \<in> set ds then 1 else (0::nat))"
  by (induction ds) auto

lemma count_sum_filter:
  assumes "distinct ds"
  shows "sum_list (map (count_list xs) ds) = length (filter (\<lambda>x. x \<in> set ds) xs)"
proof (induction xs)
  case Nil
  then show ?case by simp
next
  case (Cons x xs)
  have "sum_list (map (count_list (x # xs)) ds)
        = sum_list (map (\<lambda>d. count_list xs d + (if x = d then 1 else 0)) ds)"
    by (rule arg_cong [of _ _ sum_list], rule map_cong) auto
  also have "\<dots> = sum_list (map (count_list xs) ds) + sum_list (map (\<lambda>d. if x = d then 1 else 0) ds)"
    by (rule sum_list_addf)
  also have "\<dots> = length (filter (\<lambda>x. x \<in> set ds) xs) + (if x \<in> set ds then 1 else 0)"
    by (simp only: Cons.IH sum_list_indicator [OF assms])
  finally have e: "sum_list (map (count_list (x # xs)) ds)
        = length (filter (\<lambda>x. x \<in> set ds) xs) + (if x \<in> set ds then 1 else 0)" .
  show ?case unfolding e by simp
qed

lemma sum_list_ones: "\<forall>d\<in>set ds. f d = (1::nat) \<Longrightarrow> sum_list (map f ds) = length ds"
  by (induction ds) auto

lemma digits_list: "distinct ''123456789''" "length ''123456789'' = 9"
  by simp_all

lemma valid_digits:
  assumes v: "valid_grid g" and k: "k < 81"
  shows "g ! k \<in> set ''123456789''"
proof -
  define ds where "ds = ''123456789''"
  define xs where "xs = map (\<lambda>k. g ! k) (row_cells (k div 9))"
  have ds: "distinct ds" "length ds = 9" unfolding ds_def by (rule digits_list)+
  have "k div 9 < 9" using k by linarith
  then have u: "row_cells (k div 9) \<in> set sd_units" by (rule row_cells_unit)
  have "\<forall>d\<in>set ds. count_list xs d = 1"
    using v u unfolding valid_grid_def ds_def xs_def by blast
  then have "sum_list (map (count_list xs) ds) = 9" using sum_list_ones ds(2) by metis
  then have f: "length (filter (\<lambda>x. x \<in> set ds) xs) = length xs"
    using count_sum_filter [OF ds(1), of xs] by (simp add: xs_def row_cells_def)
  have m: "g ! k \<in> set xs" unfolding xs_def using row_cells_mem [OF k] by simp
  have "g ! k \<in> set ds"
  proof (rule ccontr)
    assume "g ! k \<notin> set ds"
    from length_filter_less [OF m, of "\<lambda>x. x \<in> set ds"] this f show False by simp
  qed
  then show ?thesis unfolding ds_def .
qed

lemma places_of_cell_iff:
  assumes "c < 81"
  shows "p \<in> set (places_of c) \<longleftrightarrow> p < 729 \<and> p div 9 = c"
  using cell_constraint_only [OF _ assms, of p] by (auto simp: places_of_set)

lemma places_of_unit_iff:
  assumes "t < 27" and "d < 9"
  shows "p \<in> set (places_of (unit_con t d)) \<longleftrightarrow> p < 729 \<and> p div 9 \<in> set (sd_units ! t) \<and> p mod 9 = d"
  using unit_con_mem [OF assms, of p] by (auto simp: places_of_set pl_dig_def)

lemma placement_of:
  fixes k d :: nat
  assumes "k < 81" and "d < 9"
  shows "9 * k + d < 729" and "(9 * k + d) div 9 = k" and "(9 * k + d) mod 9 = d"
  using assms by simp_all

lemma placement_eq:
  fixes p q :: nat
  assumes "p div 9 = q div 9" and "p mod 9 = q mod 9"
  shows "p = q"
  using assms by (metis div_mult_mod_eq)

text \<open>In a valid grid every constraint is met by exactly one of its nine placements.\<close>

lemma valid_unique_placement:
  assumes v: "valid_grid g" and c: "c < 324"
  shows "\<exists>!p. p \<in> set (places_of c) \<and> agrees g p"
  using c
proof (rule constraint_cases)
  assume c81: "c < 81"
  from valid_digits [OF v c81] obtain d where d: "d < 9" "g ! c = cell_char d"
    by (rule digit_is_cell_char)
  note P = placement_of [OF c81 d(1)]
  show ?thesis
  proof (rule ex1I [of _ "9 * c + d"])
    have "cell_char (9 * c + d) = cell_char d" using P(3) d(1) by (simp add: cell_char_eq)
    then show "9 * c + d \<in> set (places_of c) \<and> agrees g (9 * c + d)"
      using P d(2) by (simp add: places_of_cell_iff [OF c81] agrees_def)
  next
    fix q
    assume q: "q \<in> set (places_of c) \<and> agrees g q"
    then have qc: "q div 9 = c" by (simp add: places_of_cell_iff [OF c81])
    from q have "cell_char q = cell_char d" using d(2) qc by (simp add: agrees_def)
    then have "q mod 9 = d" using d(1) by (simp add: cell_char_eq)
    then have "q div 9 = (9 * c + d) div 9" "q mod 9 = (9 * c + d) mod 9"
      using qc P by simp_all
    then show "q = 9 * c + d" by (rule placement_eq)
  qed
next
  fix t d
  assume t: "t < 27" and d: "d < 9" and cu: "c = unit_con t d"
  have u: "sd_units ! t \<in> set sd_units" using t by (auto simp: sd_units_set)
  have "count_list (map (\<lambda>k. g ! k) (sd_units ! t)) (cell_char d) = 1"
    using v u cell_char_digit [of d] unfolding valid_grid_def by blast
  from count_one_unique [OF unit_shape(2) [OF t] this]
  obtain k where k: "k \<in> set (sd_units ! t)" "g ! k = cell_char d"
    and uniq: "\<And>k'. k' \<in> set (sd_units ! t) \<Longrightarrow> g ! k' = cell_char d \<Longrightarrow> k' = k"
    by blast
  have k81: "k < 81" using unit_shape(3) [OF t k(1)] .
  note P = placement_of [OF k81 d]
  show ?thesis
  proof (rule ex1I [of _ "9 * k + d"])
    have "cell_char (9 * k + d) = cell_char d" using P(3) d by (simp add: cell_char_eq)
    then show "9 * k + d \<in> set (places_of c) \<and> agrees g (9 * k + d)"
      using P k unfolding cu by (simp add: places_of_unit_iff [OF t d] agrees_def)
  next
    fix q
    assume q: "q \<in> set (places_of c) \<and> agrees g q"
    then have qq: "q div 9 \<in> set (sd_units ! t)" "q mod 9 = d"
      unfolding cu by (simp_all add: places_of_unit_iff [OF t d])
    have "cell_char q = cell_char d" using qq(2) d by (simp add: cell_char_eq)
    then have "g ! (q div 9) = cell_char d" using q by (simp add: agrees_def)
    from uniq [OF qq(1) this] have "q div 9 = k" .
    then have "q div 9 = (9 * k + d) div 9" "q mod 9 = (9 * k + d) mod 9"
      using qq(2) P by simp_all
    then show "q = 9 * k + d" by (rule placement_eq)
  qed
qed

lemma agrees_clash:
  assumes v: "valid_grid g" and a: "a < 729" and b: "b < 729"
    and ag: "agrees g a" "agrees g b" and cl: "clash a b"
  shows "a = b"
proof -
  from cl obtain c where c: "c \<in> set (cons_of a)" "c \<in> set (cons_of b)"
    unfolding clash_def by blast
  have c324: "c < 324" using cons_of_bound [OF a c(1)] .
  have "a \<in> set (places_of c)" "b \<in> set (places_of c)"
    using a b c by (simp_all add: places_of_set)
  with valid_unique_placement [OF v c324] ag show ?thesis by blast
qed

lemma sols_nonclash:
  assumes "g \<in> sols A" and "\<forall>a\<in>set A. a < 729"
  shows "nonclash A"
  unfolding nonclash_def
proof (intro ballI impI)
  fix a b
  assume ab: "a \<in> set A" "b \<in> set A" "a \<noteq> b"
  from assms(1) have v: "valid_grid g" and ag: "agrees g a" "agrees g b"
    using ab by (simp_all add: sols_def)
  show "\<not> clash a b"
    using agrees_clash [OF v _ _ ag] assms(2) ab by blast
qed

lemma hint_list_mem:
  "a \<in> set (hint_list s) \<longleftrightarrow> (\<exists>k<81. 0 \<le> sd_hint (s ! k) \<and> a = k * 9 + nat (sd_hint (s ! k)))"
  unfolding hint_list_def by (auto simp: hint_cells_bound)

lemma hint_agrees:
  assumes "k < 81" and "0 \<le> sd_hint (s ! k)"
  shows "agrees g (k * 9 + nat (sd_hint (s ! k))) \<longleftrightarrow> g ! k = s ! k"
  unfolding agrees_def using hint_in_list(2) [OF assms] hint_char [OF assms(2), of k] by simp

lemma sols_hints: "sols (hint_list s) = {g. solution_of s g}"
proof -
  have "(\<forall>a\<in>set (hint_list s). agrees g a) \<longleftrightarrow>
        (\<forall>k<81. s ! k \<in> set ''123456789'' \<longrightarrow> g ! k = s ! k)" for g
  proof
    assume a: "\<forall>a\<in>set (hint_list s). agrees g a"
    show "\<forall>k<81. s ! k \<in> set ''123456789'' \<longrightarrow> g ! k = s ! k"
    proof (intro allI impI)
      fix k :: nat
      assume k: "k < 81" and "s ! k \<in> set ''123456789''"
      then have h: "0 \<le> sd_hint (s ! k)" by (simp only: sd_hint_digit)
      from a hint_in_list(1) [OF k h] have "agrees g (k * 9 + nat (sd_hint (s ! k)))" by blast
      then show "g ! k = s ! k" by (simp only: hint_agrees [OF k h])
    qed
  next
    assume a: "\<forall>k<81. s ! k \<in> set ''123456789'' \<longrightarrow> g ! k = s ! k"
    show "\<forall>a\<in>set (hint_list s). agrees g a"
    proof
      fix p
      assume "p \<in> set (hint_list s)"
      then obtain k where k: "k < 81" "0 \<le> sd_hint (s ! k)" "p = k * 9 + nat (sd_hint (s ! k))"
        unfolding hint_list_mem by blast
      from k(2) have "s ! k \<in> set ''123456789''" by (simp only: sd_hint_digit)
      with a k(1) have "g ! k = s ! k" by blast
      then show "agrees g p" unfolding k(3) by (simp only: hint_agrees [OF k(1,2)])
    qed
  qed
  then show ?thesis unfolding sols_def solution_of_def by blast
qed

text \<open>A grid that agrees with pairwise compatible placements on all 81 cells is valid.\<close>

lemma nonclash_valid:
  assumes len: "length g = 81"
    and A: "\<forall>a\<in>set A. a < 729" and nc: "nonclash A"
    and cov: "\<forall>k<81. \<exists>a\<in>set A. a div 9 = k"
    and ag: "\<forall>a\<in>set A. agrees g a"
  shows "valid_grid g"
proof -
  define ds where "ds = ''123456789''"
  have ds: "distinct ds" "length ds = 9" unfolding ds_def by (rule digits_list)+
  have inj: "k = k'"
    if t: "t < 27" and k: "k \<in> set (sd_units ! t)" "k' \<in> set (sd_units ! t)" and e: "g ! k = g ! k'"
    for t k k'
  proof -
    have k81: "k < 81" "k' < 81" using unit_shape(3) [OF t] k by blast+
    from cov k81 obtain a a' where a: "a \<in> set A" "a div 9 = k" "a' \<in> set A" "a' div 9 = k'"
      by blast
    have "cell_char a = cell_char a'" using ag a e unfolding agrees_def by metis
    then have m: "a' mod 9 = a mod 9" by (simp add: cell_char_eq)
    have d: "a mod 9 < 9" by simp
    have b: "a < 729" "a' < 729" using A a by blast+
    have "unit_con t (a mod 9) \<in> set (cons_of a)"
      using unit_con_mem [OF t d b(1)] a(2) k(1) by (simp add: pl_dig_def)
    moreover have "unit_con t (a mod 9) \<in> set (cons_of a')"
      using unit_con_mem [OF t d b(2)] a(4) k(2) m by (simp add: pl_dig_def)
    ultimately have "clash a a'" unfolding clash_def by blast
    with nc a have "a = a'" unfolding nonclash_def by blast
    then show ?thesis using a by simp
  qed
  have dig: "g ! k \<in> set ds" if "k < 81" for k
  proof -
    from cov that obtain a where a: "a \<in> set A" "a div 9 = k" by blast
    with ag have "g ! k = cell_char a" unfolding agrees_def by blast
    then show ?thesis unfolding ds_def using cell_char_digit [of a] by simp
  qed
  have cnt: "count_list (map (\<lambda>k. g ! k) u) ch = 1" if u: "u \<in> set sd_units" and ch: "ch \<in> set ds" for u ch
  proof -
    from u obtain t where t: "t < 27" "u = sd_units ! t" unfolding sd_units_set by blast
    let ?xs = "map (\<lambda>k. g ! k) u"
    have "inj_on (\<lambda>k. g ! k) (set u)"
      unfolding t(2) by (rule inj_onI) (rule inj [OF t(1)])
    then have dx: "distinct ?xs" using unit_shape(2) [OF t(1)] t(2) by (simp add: distinct_map)
    have "set ?xs \<subseteq> set ds" using dig unit_shape(3) [OF t(1)] t(2) by auto
    moreover have "card (set ?xs) = 9"
      using distinct_card [OF dx] unit_shape(1) [OF t(1)] t(2) by simp
    moreover have "card (set ds) = 9" using distinct_card [OF ds(1)] ds(2) by simp
    ultimately have "set ?xs = set ds" by (intro card_subset_eq) simp_all
    with ch have "ch \<in> set ?xs" by simp
    from count_list_distinct [OF dx this] show ?thesis .
  qed
  show ?thesis unfolding valid_grid_def using len cnt unfolding ds_def by blast
qed

lemma nonclash_fresh:
  assumes "nonclash H" and "fresh H S"
  shows "nonclash (H @ S)"
  using assms(2)
proof (induction S rule: rev_induct)
  case Nil
  then show ?case using assms(1) by simp
next
  case (snoc p S)
  from snoc.prems have "fresh H S \<and> (\<forall>a\<in>set (H @ S). \<not> clash a p)"
    unfolding fresh_snoc .
  then have f: "fresh H S" and n: "\<forall>a\<in>set (H @ S). \<not> clash a p"
    by blast+
  from snoc.IH [OF f] have nc: "nonclash (H @ S)" .
  show ?case
    unfolding nonclash_def
  proof (intro ballI impI)
    fix a b
    assume ab: "a \<in> set (H @ S @ [p])" "b \<in> set (H @ S @ [p])" "a \<noteq> b"
    then consider "a \<in> set (H @ S)" "b \<in> set (H @ S)" | "a \<in> set (H @ S)" "b = p"
      | "a = p" "b \<in> set (H @ S)" by auto
    then show "\<not> clash a b"
    proof cases
      case 1
      then show ?thesis using nc ab(3) unfolding nonclash_def by blast
    next
      case 2
      then show ?thesis using n by blast
    next
      case 3
      then show ?thesis using n clash_sym [of a b] by blast
    qed
  qed
qed

section \<open>Solutions that extend a set of placements\<close>

lemma sols_snoc: "sols (A @ [p]) = {g \<in> sols A. agrees g p}"
  by (auto simp: sols_def)

lemma blocked_sols:
  assumes A: "\<forall>a\<in>set A. a < 729" "length A \<le> 81" and c: "c < 324"
    and op: "\<forall>a\<in>set A. c \<notin> set (cons_of a)"
    and p: "p \<in> set (places_of c)" and b: "sr_of A ! p \<noteq> 0"
  shows "sols (A @ [p]) = {}"
proof (rule ccontr)
  assume "sols (A @ [p]) \<noteq> {}"
  then obtain g where g: "g \<in> sols (A @ [p])" by blast
  then have v: "valid_grid g" and ag: "\<forall>a\<in>set A. agrees g a" and agp: "agrees g p"
    by (simp_all add: sols_def)
  have p729: "p < 729" using p by (rule places_of_bound)
  from b sr_of_zero [OF p729 A(2) A(1)] obtain a where a: "a \<in> set A" "clash a p" by blast
  have "a = p" using agrees_clash [OF v _ p729 _ agp a(2)] A(1) ag a(1) by blast
  moreover have "c \<in> set (cons_of p)" using p by (simp add: places_of_set)
  ultimately show False using op a(1) by blast
qed

lemma sols_all:
  assumes "c < 324"
  shows "sols A = zsols A c 0"
proof
  show "sols A \<subseteq> zsols A c 0"
  proof
    fix g
    assume g: "g \<in> sols A"
    then have v: "valid_grid g" by (simp add: sols_def)
    from valid_unique_placement [OF v assms] obtain p
      where p: "p \<in> set (places_of c)" "agrees g p" by blast
    from p(1) obtain r where r: "r < 9" "p = places_of c ! r"
      unfolding in_set_conv_nth places_of_length [OF assms] by blast
    have "g \<in> sols (A @ [places_of c ! r])" using g p(2) r(2) by (simp add: sols_snoc)
    then show "g \<in> zsols A c 0" unfolding zsols_def using r(1) by auto
  qed
  show "zsols A c 0 \<subseteq> sols A" unfolding zsols_def by (auto simp: sols_snoc)
qed

lemma zsols_empty:
  assumes "\<forall>r. r0 \<le> r \<and> r < 9 \<longrightarrow> sols (A @ [places_of c ! r]) = {}"
  shows "zsols A c r0 = {}"
  unfolding zsols_def using assms by auto

lemma zsols_split:
  assumes r: "r0 \<le> r2" "r2 < 9"
    and e: "\<forall>r. r0 \<le> r \<and> r < r2 \<longrightarrow> sols (A @ [places_of c ! r]) = {}"
  shows "zsols A c r0 = sols (A @ [places_of c ! r2]) \<union> zsols A c (Suc r2)"
proof
  show "zsols A c r0 \<subseteq> sols (A @ [places_of c ! r2]) \<union> zsols A c (Suc r2)"
  proof
    fix g
    assume "g \<in> zsols A c r0"
    then obtain x where x: "r0 \<le> x" "x < 9" "g \<in> sols (A @ [places_of c ! x])"
      unfolding zsols_def by auto
    with e have "\<not> x < r2" by blast
    then consider "x = r2" | "Suc r2 \<le> x" by linarith
    then show "g \<in> sols (A @ [places_of c ! r2]) \<union> zsols A c (Suc r2)"
    proof cases
      case 1
      then show ?thesis using x(3) by simp
    next
      case 2
      then have "g \<in> zsols A c (Suc r2)" unfolding zsols_def using x by auto
      then show ?thesis by simp
    qed
  qed
  show "sols (A @ [places_of c ! r2]) \<union> zsols A c (Suc r2) \<subseteq> zsols A c r0"
  proof
    fix g
    assume "g \<in> sols (A @ [places_of c ! r2]) \<union> zsols A c (Suc r2)"
    then consider "g \<in> sols (A @ [places_of c ! r2])"
      | x where "Suc r2 \<le> x" "x < 9" "g \<in> sols (A @ [places_of c ! x])"
      unfolding zsols_def by auto
    then show "g \<in> zsols A c r0"
    proof cases
      case 1
      have "r2 \<in> {r0..<9}" using r by simp
      with 1 show ?thesis unfolding zsols_def by blast
    next
      case 2
      have "x \<in> {r0..<9}" using r 2 by simp
      with 2(3) show ?thesis unfolding zsols_def by blast
    qed
  qed
qed

lemma zsols_disjoint:
  assumes c: "c < 324" and r: "r2 < 9"
  shows "sols (A @ [places_of c ! r2]) \<inter> zsols A c (Suc r2) = {}"
proof (rule ccontr)
  assume "sols (A @ [places_of c ! r2]) \<inter> zsols A c (Suc r2) \<noteq> {}"
  then obtain g x where g: "g \<in> sols (A @ [places_of c ! r2])"
    and x: "Suc r2 \<le> x" "x < 9" "g \<in> sols (A @ [places_of c ! x])"
    unfolding zsols_def by auto
  from g have v: "valid_grid g" and a1: "agrees g (places_of c ! r2)" by (simp_all add: sols_def)
  from x(3) have a2: "agrees g (places_of c ! x)" by (simp add: sols_def)
  have "places_of c ! r2 = places_of c ! x"
    using valid_unique_placement [OF v c] a1 a2 entry_mem [OF c r] entry_mem [OF c x(2)] by blast
  then have "r2 = x"
    using places_of_distinct [of c] places_of_length [OF c] r x(2)
    by (simp add: nth_eq_iff_index_eq)
  with x(1) show False by simp
qed

section \<open>The line printed when all cells are filled\<close>

lemma core_out:
  assumes "sd_core s st" and "k < 81"
  shows "st_out st ! k = s ! k \<or> sd_hint (s ! k) < 0"
  using assms by (auto simp: sd_core_def)

lemma core_out_length: "sd_core s st \<Longrightarrow> length (st_out st) = 82"
  by (simp add: sd_core_def)

lemma blank_cells_card: "card {k. k < 81 \<and> sd_hint (s ! k) < 0} = 81 - length (hint_list s)"
proof -
  let ?P = "\<lambda>k. 0 \<le> sd_hint (s ! k)"
  have "length (filter ?P [0..<81]) + length (filter (\<lambda>k. \<not> ?P k) [0..<81]) = 81"
    using sum_length_filter_compl [of ?P "[0..<81]"] by simp
  moreover have "length (hint_list s) = length (filter ?P [0..<81])"
    by (simp add: hint_list_def hint_cells_def)
  moreover have "length (filter (\<lambda>k. \<not> ?P k) [0..<81]) = card {k. k < 81 \<and> \<not> ?P k}"
    by (rule length_filter_upt)
  moreover have "{k. k < 81 \<and> \<not> ?P k} = {k. k < 81 \<and> sd_hint (s ! k) < 0}" by auto
  ultimately show ?thesis by simp
qed

lemma stack_cells_all:
  assumes f: "fresh (hint_list s) S" and b: "\<forall>p\<in>set S. p < 729"
    and n: "length S + length (hint_list s) = 81"
  shows "(\<lambda>p. p div 9) ` set S = {k. k < 81 \<and> sd_hint (s ! k) < 0}"
proof (rule card_subset_eq)
  show "finite {k. k < 81 \<and> sd_hint (s ! k) < 0}" by simp
  show "(\<lambda>p. p div 9) ` set S \<subseteq> {k. k < 81 \<and> sd_hint (s ! k) < 0}"
  proof
    fix k
    assume "k \<in> (\<lambda>p. p div 9) ` set S"
    then obtain p where p: "p \<in> set S" "k = p div 9" by blast
    have k: "p div 9 < 81" using b p(1) cell_bound by blast
    from fresh_not_hint_cell [OF f p(1) k] k p(2)
    show "k \<in> {k. k < 81 \<and> sd_hint (s ! k) < 0}" by simp
  qed
  have "card ((\<lambda>p. p div 9) ` set S) = length (map (\<lambda>p. p div 9) S)"
    using distinct_card [OF fresh_distinct_cells [OF f]] by simp
  then show "card ((\<lambda>p. p div 9) ` set S) = card {k. k < 81 \<and> sd_hint (s ! k) < 0}"
    using n by (simp add: blank_cells_card)
qed

lemma emitted_solution:
  assumes core: "sd_core s st" and dir: "st_dir st = 1" and i0: "0 \<le> st_i st"
    and n: "nat (st_i st) + length (hint_list s) = 81"
    and good: "nonclash (hint_list s)"
  defines "S \<equiv> sd_stack st (nat (st_i st))"
  shows "sols (hint_list s @ S) = {take 81 (paint S (st_out st))}"
proof -
  define g where "g = take 81 (paint S (st_out st))"
  define A where "A = hint_list s @ S"
  have top: "sd_top st = nat (st_i st)" using dir by (simp add: sd_top_def)
  have le: "nat (st_i st) \<le> sd_top st" using top by simp
  have bound: "\<forall>a\<in>set A. a < 729"
    unfolding A_def S_def using core_applied_bound(1) [OF core le] .
  have f: "fresh (hint_list s) S" unfolding S_def using core_fresh_prefix [OF core le] .
  have nc: "nonclash A" unfolding A_def using nonclash_fresh [OF good f] .
  have dc: "distinct (map (\<lambda>p. p div 9) S)" using fresh_distinct_cells [OF f] .
  have lenS: "length S + length (hint_list s) = 81" using n by (simp add: S_def)
  have bS: "\<forall>p\<in>set S. p < 729" using bound by (simp add: A_def)
  have cells: "(\<lambda>p. p div 9) ` set S = {k. k < 81 \<and> sd_hint (s ! k) < 0}"
    using stack_cells_all [OF f bS lenS] .
  have leng: "length g = 81" unfolding g_def using core_out_length [OF core] by simp
  have gk: "g ! k = paint S (st_out st) ! k" if "k < 81" for k
    unfolding g_def using that by simp
  have agS: "agrees g a" if "a \<in> set S" for a
  proof -
    have k: "a div 9 < 81" using bS that cell_bound by blast
    then have "a div 9 < length (st_out st)" using core_out_length [OF core] by simp
    from paint_in [OF dc that this] show ?thesis unfolding agrees_def using gk [OF k] by simp
  qed
  have agH: "agrees g a" if "a \<in> set (hint_list s)" for a
  proof -
    from that obtain k where k: "k < 81" "0 \<le> sd_hint (s ! k)" "a = k * 9 + nat (sd_hint (s ! k))"
      unfolding hint_list_mem by blast
    have "k \<notin> (\<lambda>p. p div 9) ` set S" unfolding cells using k(2) by simp
    then have "paint S (st_out st) ! k = st_out st ! k" by (rule paint_other)
    moreover have "st_out st ! k = s ! k" using core_out [OF core k(1)] k(2) by linarith
    ultimately have "g ! k = s ! k" using gk [OF k(1)] by simp
    then show ?thesis unfolding k(3) by (simp only: hint_agrees [OF k(1,2)])
  qed
  have ag: "\<forall>a\<in>set A. agrees g a" unfolding A_def using agS agH by auto
  have cov: "\<forall>k<81. \<exists>a\<in>set A. a div 9 = k"
  proof (intro allI impI)
    fix k :: nat
    assume k: "k < 81"
    show "\<exists>a\<in>set A. a div 9 = k"
    proof (cases "0 \<le> sd_hint (s ! k)")
      case True
      have "k * 9 + nat (sd_hint (s ! k)) \<in> set A"
        unfolding A_def using hint_in_list(1) [OF k True] by simp
      with hint_in_list(2) [OF k True] show ?thesis by blast
    next
      case False
      then have "k \<in> (\<lambda>p. p div 9) ` set S" unfolding cells using k by simp
      then show ?thesis unfolding A_def by auto
    qed
  qed
  have v: "valid_grid g" using nonclash_valid [OF leng bound nc cov ag] .
  have "g' = g" if "g' \<in> sols A" for g'
  proof (rule nth_equalityI)
    from that have v': "valid_grid g'" and ag': "\<forall>a\<in>set A. agrees g' a"
      by (simp_all add: sols_def)
    show "length g' = length g" using v' leng by (simp add: valid_grid_def)
    fix k
    assume "k < length g'"
    then have k: "k < 81" using v' by (simp add: valid_grid_def)
    from cov k obtain a where a: "a \<in> set A" "a div 9 = k" by blast
    show "g' ! k = g ! k" using ag ag' a unfolding agrees_def by metis
  qed
  moreover have "g \<in> sols A" using v ag by (simp add: sols_def)
  ultimately have "sols A = {g}" by blast
  then show ?thesis unfolding A_def g_def .
qed

section \<open>The result of the loop\<close>

lemma final_step: "sd_running st \<Longrightarrow> sd_final h st = sd_final h (sd_step sd_genmat h st)"
  unfolding sd_final_def by (rule while_option_step)

lemma final_done: "\<not> sd_running st \<Longrightarrow> sd_final h st = Some st"
  unfolding sd_final_def by (rule while_option_done)

lemma sd_solve_final: "sd_solve sd_genmat s = sd_final (int (length (hint_list s))) (sd_start sd_genmat s)"
  by (simp add: sd_solve_def sd_final_def sd_hints_eq)

lemma core_running: "sd_core s st \<Longrightarrow> 0 \<le> st_i st \<Longrightarrow> sd_running st"
  by (simp add: sd_running_def sd_core_def)

lemma step_back_state:
  assumes "st_dir st = - 1" and "st_i st < 81 - h"
  shows "sd_step sd_genmat h st = sd_choose sd_genmat st"
  using assms by (simp add: sd_step_def sd_forward_def)

section \<open>The search visits every solution once\<close>

lemma core_lengths: "sd_core s st \<Longrightarrow> length (st_cr st) = 81 \<and> length (st_cc st) = 81"
  by (simp add: sd_core_def)

lemma core_cr_above:
  assumes "sd_core s st" and "sd_top st \<le> j" and "j < 81"
  shows "st_cr st ! j = - 1"
  using assms by (simp add: sd_core_def)

lemma sd_exit_trans:
  assumes "sd_exit s st1 i gs st2"
    and "\<forall>j<i. st_cc st1 ! j = st_cc st ! j \<and> st_cr st1 ! j = st_cr st ! j"
    and "st_stdout st1 = st_stdout st @ gs0"
  shows "sd_exit s st i (gs0 @ gs) st2"
  using assms unfolding sd_exit_def by simp

lemma choose_explores:
  assumes Y: "\<And>st. sd_core s st \<Longrightarrow> st_dir st = 1 \<Longrightarrow> st_i st = int (Suc i) \<Longrightarrow> sd_explored s (Suc i) st"
    and iN: "i + length (hint_list s) < 81"
    and core: "sd_core s st" and i: "st_i st = int i"
    and cc: "0 \<le> st_cc st ! i" "st_cc st ! i < 324"
    and op: "\<forall>a\<in>set (hint_list s @ sd_stack st i). nat (st_cc st ! i) \<notin> set (cons_of a)"
  shows "sd_tried s i st"
  using core i cc op
proof (induction "9 - nat (st_cr st ! i + 1)" arbitrary: st rule: less_induct)
  case less
  note core = less.prems(1) and i = less.prems(2) and cc = less.prems(3,4) and op = less.prems(5)
  define h where "h = int (length (hint_list s))"
  define c where "c = nat (st_cc st ! i)"
  define A where "A = hint_list s @ sd_stack st i"
  define r0 where "r0 = nat (st_cr st ! i + 1)"
  define r2 where "r2 = sd_next sd_genmat (sr_of A) c r0"
  have ni: "nat (st_i st) = i" and i0: "0 \<le> st_i st" using i by simp_all
  have iN': "nat (st_i st) + length (hint_list s) < 81" using iN ni by simp
  have i81: "i < 81" using iN by simp
  have c324: "c < 324" using cc by (simp add: c_def)
  have le: "i \<le> sd_top st" using core_top_range(1) [OF core i0] ni by simp
  have bound: "\<forall>a\<in>set A. a < 729" "length A \<le> 81"
    unfolding A_def using core_applied_bound [OF core le] by blast+
  have r09: "r0 \<le> 9" unfolding r0_def using core_cr_range(2) [OF core i81] by linarith
  have ch: "sd_choose sd_genmat st = (if r2 < 9 then st_fwd A (places_of c ! r2) r2 st else st_back A st)"
    using sd_choose_eq [OF core i0 iN'] cc unfolding ni r2_def c_def A_def r0_def by simp
  from sd_next_spec [OF r09, of sd_genmat "sr_of A" c]
  have nx: "r0 \<le> r2" "r2 \<le> 9"
    "\<forall>r. r0 \<le> r \<and> r < r2 \<longrightarrow> sr_of A ! (places_of c ! r) \<noteq> 0"
    "r2 < 9 \<longrightarrow> sr_of A ! (places_of c ! r2) = 0"
    unfolding r2_def by (simp_all add: aux_r_nth [OF c324])
  have op': "\<forall>a\<in>set A. c \<notin> set (cons_of a)" using op unfolding A_def c_def .
  have blocked: "sols (A @ [places_of c ! r]) = {}" if "r0 \<le> r" "r < r2" for r
  proof -
    have "r < 9" using that nx(2) by linarith
    from blocked_sols [OF bound c324 op' entry_mem [OF c324 this]] nx(3) that show ?thesis by blast
  qed
  show ?case
  proof (cases "r2 < 9")
    case False
    define st' where "st' = st_back A st"
    have a: "sd_choose sd_genmat st = st'" using ch False by (simp add: st'_def)
    have core': "sd_core s st'"
      unfolding st'_def A_def using core_back(1) [OF core i0 iN'] ni by simp
    have ex: "sd_exit s st i [] st'"
      unfolding sd_exit_def using core' i ni by (simp add: st'_def)
    have "zsols A c r0 = {}"
    proof (rule zsols_empty, intro allI impI)
      fix r
      assume "r0 \<le> r \<and> r < 9"
      then show "sols (A @ [places_of c ! r]) = {}" using blocked [of r] False by simp
    qed
    then have "distinct [] \<and> set [] = zsols A c r0" by simp
    then show ?thesis
      unfolding sd_tried_def a using ex unfolding A_def c_def r0_def by blast
  next
    case True
    define p where "p = places_of c ! r2"
    define stF where "stF = st_fwd A p r2 st"
    have a: "sd_choose sd_genmat st = stF" using ch True by (simp add: stF_def p_def)
    have free: "sr_of (hint_list s @ sd_stack st (nat (st_i st))) ! (places_of (nat (st_cc st ! nat (st_i st))) ! r2) = 0"
      using nx(4) True unfolding ni A_def c_def by simp
    note F = core_fwd [OF core i0 iN' _ _ True free]
    have coreF: "sd_core s stF"
      using F(1) cc unfolding ni stF_def p_def A_def c_def by simp
    have stackF: "sd_stack stF (Suc i) = sd_stack st i @ [p]"
      using F(3) cc unfolding ni stF_def p_def A_def c_def by simp
    have "sd_explored s (Suc i) stF"
      by (rule Y [OF coreF]) (simp_all add: stF_def i)
    then obtain stB gs1 where fin1: "sd_final h stF = sd_final h stB"
      and ex1: "sd_exit s stF (Suc i) gs1 stB"
      and so1: "nonclash (hint_list s) \<longrightarrow> distinct gs1 \<and> set gs1 = sols (A @ [p])"
      unfolding sd_explored_def h_def stackF A_def by auto
    from ex1 have coreB: "sd_core s stB" and dirB: "st_dir stB = - 1" and iB: "st_i stB = int i"
      and entB: "\<forall>j<Suc i. st_cc stB ! j = st_cc stF ! j \<and> st_cr stB ! j = st_cr stF ! j"
      and outB: "st_stdout stB = st_stdout stF @ gs1"
      unfolding sd_exit_def by simp_all
    have lcr: "i < length (st_cr st)" using core_lengths [OF core] i81 by simp
    have ccB: "st_cc stB ! i = st_cc st ! i" using entB by (simp add: stF_def)
    have crB: "st_cr stB ! i = int r2" using entB lcr by (simp add: stF_def ni)
    have entB': "\<forall>j<i. st_cc stB ! j = st_cc st ! j \<and> st_cr stB ! j = st_cr st ! j"
      using entB by (simp add: stF_def ni)
    have stackB: "sd_stack stB i = sd_stack st i"
      by (rule sd_stack_cong) (use entB' in simp)
    have outB': "st_stdout stB = st_stdout st @ gs1" using outB by (simp add: stF_def)
    have "9 - nat (st_cr stB ! i + 1) < 9 - nat (st_cr st ! i + 1)"
      unfolding crB using nx(1) True unfolding r0_def by simp
    moreover have "0 \<le> st_cc stB ! i" "st_cc stB ! i < 324" using cc ccB by simp_all
    moreover have "\<forall>a\<in>set (hint_list s @ sd_stack stB i). nat (st_cc stB ! i) \<notin> set (cons_of a)"
      unfolding stackB ccB using op .
    ultimately have "sd_tried s i stB" using less.hyps [of stB] coreB iB by blast
    then obtain st' gs2 where fin2: "sd_final h (sd_choose sd_genmat stB) = sd_final h st'"
      and ex2: "sd_exit s stB i gs2 st'"
      and so2: "nonclash (hint_list s) \<longrightarrow> distinct gs2 \<and> set gs2 = zsols A c (Suc r2)"
      unfolding sd_tried_def h_def stackB ccB crB A_def c_def by (auto simp: nat_add_distrib)
    have runB: "sd_running stB" using core_running [OF coreB] iB by simp
    have "st_i stB < 81 - h" using iB iN unfolding h_def by simp
    from step_back_state [OF dirB this]
    have fin3: "sd_final h stB = sd_final h (sd_choose sd_genmat stB)"
      using final_step [OF runB, of h] by simp
    have fin: "sd_final h (sd_choose sd_genmat st) = sd_final h st'"
      unfolding a fin1 fin3 fin2 ..
    have ex: "sd_exit s st i (gs1 @ gs2) st'"
      using sd_exit_trans [OF ex2 entB' outB'] .
    have so: "distinct (gs1 @ gs2) \<and> set (gs1 @ gs2) = zsols A c r0" if good: "nonclash (hint_list s)"
    proof -
      from so1 so2 good have d: "distinct gs1" "distinct gs2"
        and e: "set gs1 = sols (A @ [p])" "set gs2 = zsols A c (Suc r2)" by blast+
      have sp: "zsols A c r0 = sols (A @ [p]) \<union> zsols A c (Suc r2)"
        unfolding p_def using zsols_split [OF nx(1) True] blocked by blast
      have dj: "sols (A @ [p]) \<inter> zsols A c (Suc r2) = {}"
        unfolding p_def using zsols_disjoint [OF c324 True] .
      show ?thesis using d e sp dj by simp
    qed
    show ?thesis
      unfolding sd_tried_def using fin ex so unfolding h_def A_def c_def r0_def by blast
  qed
qed

lemma forward_explores:
  assumes len: "81 \<le> strlen s"
    and Y: "\<And>st. sd_core s st \<Longrightarrow> st_dir st = 1 \<Longrightarrow> st_i st = int (Suc i) \<Longrightarrow> sd_explored s (Suc i) st"
    and core: "sd_core s st" and dir: "st_dir st = 1" and i: "st_i st = int i"
  shows "sd_explored s i st \<or>
         (i = 0 \<and> sols (hint_list s) = {} \<and>
          (\<exists>st'. sd_final (int (length (hint_list s))) st = Some st' \<and> st_fault st' \<and>
                 st_i st' = - 1 \<and> st_stdout st' = st_stdout st))"
proof -
  define h where "h = int (length (hint_list s))"
  define A where "A = hint_list s @ sd_stack st i"
  have ni: "nat (st_i st) = i" and i0: "0 \<le> st_i st" using i by simp_all
  have run: "sd_running st" using core_running [OF core i0] .
  have top: "sd_top st = i" using dir ni by (simp add: sd_top_def)
  have fs: "sd_final h st = sd_final h (sd_step sd_genmat h st)" using final_step [OF run] .
  show ?thesis
  proof (cases "i + length (hint_list s) < 81")
    case False
    then have iN: "\<not> nat (st_i st) + length (hint_list s) < 81" using ni by simp
    note P = sd_print_eq [OF core len i0 iN]
    define st' where "st' = st_emit (sd_stack st i) st"
    have "\<not> st_i st < 81 - h" using False i unfolding h_def by simp
    then have "sd_step sd_genmat h st = st'"
      using P(1) unfolding ni st'_def by (simp add: sd_step_def)
    then have fin: "sd_final h st = sd_final h st'" using fs by simp
    have core': "sd_core s st'" using P(2) unfolding ni st'_def .
    have ex: "sd_exit s st i [take 81 (paint (sd_stack st i) (st_out st))] st'"
      unfolding sd_exit_def using core' i by (simp add: st'_def)
    have n: "nat (st_i st) + length (hint_list s) = 81" using P(7) .
    have "sols (hint_list s @ sd_stack st i) = {take 81 (paint (sd_stack st i) (st_out st))}"
      if "nonclash (hint_list s)"
      using emitted_solution [OF core dir i0 n that] unfolding ni .
    then have "sd_explored s i st"
      unfolding sd_explored_def using fin ex unfolding h_def by fastforce
    then show ?thesis by blast
  next
    case True
    then have iN: "nat (st_i st) + length (hint_list s) < 81" using ni by simp
    have i81: "i < 81" using True by simp
    have le: "i \<le> sd_top st" using top by simp
    have bound: "\<forall>a\<in>set A. a < 729" "length A \<le> 81"
      unfolding A_def using core_applied_bound [OF core le] by blast+
    from sd_forward_eq [OF core dir iN]
    obtain c where c324: "c < 324" and open0: "sc_of A ! c = 0"
      and fw: "sd_forward sd_genmat st =
                 (if sd_count sd_genmat (sr_of A) c = 0 then st_dead (int c) (c + 1) st
                  else st_pick (int c) (c + 1) st)"
      unfolding ni A_def by blast
    have op: "\<forall>a\<in>set A. c \<notin> set (cons_of a)"
      using open0 sc_of_zero [OF c324 bound(2) bound(1)] by simp
    have "st_i st < 81 - h" using True i unfolding h_def by simp
    then have st: "sd_step sd_genmat h st = sd_choose sd_genmat (sd_forward sd_genmat st)"
      by (simp add: sd_step_def)
    have c0: "c + 1 \<le> 324" using c324 by simp
    have all: "sols A = zsols A c 0" using sols_all [OF c324] .
    show ?thesis
    proof (cases "sd_count sd_genmat (sr_of A) c = 0")
      case True
      define stD where "stD = st_dead (int c) (c + 1) st"
      have fD: "sd_forward sd_genmat st = stD" using fw True by (simp add: stD_def)
      have coreD: "sd_core s stD" unfolding stD_def using core_dead(1) [OF core dir c0] .
      have "\<forall>r<9. sr_of A ! (places_of c ! r) \<noteq> 0"
        using True unfolding sd_count_0 by (simp add: aux_r_nth [OF c324])
      then have "\<forall>r. 0 \<le> r \<and> r < 9 \<longrightarrow> sols (A @ [places_of c ! r]) = {}"
        using blocked_sols [OF bound c324 op entry_mem [OF c324]] by blast
      then have "zsols A c 0 = {}" by (rule zsols_empty)
      then have empty: "sols A = {}" using all by simp
      show ?thesis
      proof (cases "i = 0")
        case True
        have "st_i stD < 0" using i True by (simp add: stD_def)
        then have ch: "sd_choose sd_genmat stD = stD\<lparr>st_fault := True\<rparr>"
          by (simp add: sd_choose_def)
        have "\<not> sd_running (stD\<lparr>st_fault := True\<rparr>)" by (simp add: sd_running_def)
        then have "sd_final h (stD\<lparr>st_fault := True\<rparr>) = Some (stD\<lparr>st_fault := True\<rparr>)"
          by (rule final_done)
        then have "sd_final h st = Some (stD\<lparr>st_fault := True\<rparr>)"
          using fs st fD ch by simp
        moreover have "st_stdout (stD\<lparr>st_fault := True\<rparr>) = st_stdout st" by (simp add: stD_def)
        moreover have "st_i (stD\<lparr>st_fault := True\<rparr>) = - 1" using i True by (simp add: stD_def)
        moreover have "sols (hint_list s) = {}" using empty True by (simp add: A_def sd_stack_def)
        ultimately show ?thesis using True unfolding h_def by auto
      next
        case False
        have iD: "st_i stD = int i - 1" using i by (simp add: stD_def)
        have dirD: "st_dir stD = - 1" by (simp add: stD_def)
        have runD: "sd_running stD" using core_running [OF coreD] iD False by simp
        have "st_i stD < 81 - h" using iD iN ni unfolding h_def by simp
        from step_back_state [OF dirD this]
        have "sd_final h stD = sd_final h (sd_choose sd_genmat stD)"
          using final_step [OF runD, of h] by simp
        then have fin: "sd_final h st = sd_final h stD" using fs st fD by simp
        have ex: "sd_exit s st i [] stD"
          unfolding sd_exit_def using coreD iD dirD by (simp add: stD_def ni)
        show ?thesis
          unfolding sd_explored_def using fin ex empty unfolding h_def A_def by fastforce
      qed
    next
      case False
      define stP where "stP = st_pick (int c) (c + 1) st"
      have fP: "sd_forward sd_genmat st = stP" using fw False by (simp add: stP_def)
      note P = core_pick [OF core dir c0, of "int c"]
      have coreP: "sd_core s stP" unfolding stP_def using P(1) .
      have stackP: "sd_stack stP i = sd_stack st i" unfolding stP_def using P(3) ni by simp
      have iP: "st_i stP = int i" using i by (simp add: stP_def)
      have lcc: "i < length (st_cc st)" using core_lengths [OF core] i81 by simp
      have ccP: "st_cc stP ! i = int c" using lcc by (simp add: stP_def ni)
      have crP: "st_cr stP ! i = - 1"
        using core_cr_above [OF core _ i81] top by (simp add: stP_def)
      have "sd_tried s i stP"
      proof (rule choose_explores [OF Y True coreP iP])
        show "0 \<le> st_cc stP ! i" "st_cc stP ! i < 324" using ccP c324 by simp_all
        show "\<forall>a\<in>set (hint_list s @ sd_stack stP i). nat (st_cc stP ! i) \<notin> set (cons_of a)"
          unfolding stackP ccP using op unfolding A_def by simp
      qed (assumption+)
      then obtain st' gs where fin2: "sd_final h (sd_choose sd_genmat stP) = sd_final h st'"
        and ex2: "sd_exit s stP i gs st'"
        and so2: "nonclash (hint_list s) \<longrightarrow> distinct gs \<and> set gs = zsols A c 0"
        unfolding sd_tried_def h_def stackP ccP crP A_def by auto
      have fin: "sd_final h st = sd_final h st'" using fs st fP fin2 by simp
      have "sd_exit s st i ([] @ gs) st'"
        by (rule sd_exit_trans [OF ex2]) (simp_all add: stP_def ni)
      then have ex: "sd_exit s st i gs st'" by simp
      show ?thesis
        unfolding sd_explored_def using fin ex so2 all unfolding h_def A_def by auto
    qed
  qed
qed

lemma explore_all:
  assumes len: "81 \<le> strlen s"
    and core: "sd_core s st" and dir: "st_dir st = 1" and i: "st_i st = int i" and pos: "0 < i"
  shows "sd_explored s i st"
  using core dir i pos
proof (induction "81 - i" arbitrary: i st rule: less_induct)
  case less
  have Y: "sd_explored s (Suc i) st'"
    if "sd_core s st'" "st_dir st' = 1" "st_i st' = int (Suc i)" for st'
  proof -
    have "sd_top st' = Suc i" using that by (simp add: sd_top_def)
    then have "Suc i \<le> 81" using core_top [OF that(1)] by simp
    then have "81 - Suc i < 81 - i" by simp
    from less.hyps [OF this that] show ?thesis by simp
  qed
  from forward_explores [OF len Y less.prems(1,2,3)] less.prems(4) show ?case by blast
qed

text \<open>
  The result of \<^verbatim>\<open>sd_solve\<close> on any input of at least 81 characters: either the loop ends
  with \<^verbatim>\<open>i = -1\<close> at its head, having printed every solution of the hints once (when no two
  hints exclude each other), or the first scan finds a constraint without a candidate and
  line 139 reads \<^verbatim>\<open>cc[-1]\<close>; then the hints have no solution.
\<close>

lemma solve_explores:
  assumes len: "81 \<le> strlen s"
  shows "(\<exists>st. sd_solve sd_genmat s = Some st \<and> \<not> st_fault st \<and> st_i st = - 1 \<and>
            (nonclash (hint_list s) \<longrightarrow> distinct (st_stdout st) \<and> set (st_stdout st) = sols (hint_list s))) \<or>
         (sols (hint_list s) = {} \<and>
            (\<exists>st. sd_solve sd_genmat s = Some st \<and> st_fault st \<and> st_i st = - 1 \<and> st_stdout st = []))"
proof -
  define h where "h = int (length (hint_list s))"
  define st0 where "st0 = sd_start sd_genmat s"
  have core: "sd_core s st0" unfolding st0_def by (rule sd_start_core)
  have s0: "st_dir st0 = 1" "st_i st0 = int 0" "st_stdout st0 = []"
    unfolding st0_def by (simp_all add: sd_start_eq)
  have sf: "sd_solve sd_genmat s = sd_final h st0" unfolding h_def st0_def by (rule sd_solve_final)
  have Y: "sd_explored s (Suc 0) st'"
    if "sd_core s st'" "st_dir st' = 1" "st_i st' = int (Suc 0)" for st'
    using explore_all [OF len that] by simp
  from forward_explores [OF len Y core s0(1,2)]
  consider "sd_explored s 0 st0"
    | "sols (hint_list s) = {}"
      "\<exists>st'. sd_final h st0 = Some st' \<and> st_fault st' \<and> st_i st' = - 1 \<and> st_stdout st' = st_stdout st0"
    unfolding h_def by blast
  then show ?thesis
  proof cases
    case 1
    then obtain st' gs where fin: "sd_final h st0 = sd_final h st'"
      and ex: "sd_exit s st0 0 gs st'"
      and so: "nonclash (hint_list s) \<longrightarrow> distinct gs \<and> set gs = sols (hint_list s)"
      unfolding sd_explored_def h_def by (auto simp: sd_stack_def)
    from ex have core': "sd_core s st'" and i': "st_i st' = - 1" and out: "st_stdout st' = gs"
      unfolding sd_exit_def using s0(3) by simp_all
    have "\<not> sd_running st'" using i' by (simp add: sd_running_def)
    then have "sd_final h st' = Some st'" by (rule final_done)
    then have "sd_solve sd_genmat s = Some st'" using sf fin by simp
    moreover have "\<not> st_fault st'" using core' by (simp add: sd_core_def)
    ultimately show ?thesis using so out i' by blast
  next
    case 2
    then show ?thesis using sf s0(3) by auto
  qed
qed

lemma sd_solve_total:
  assumes "81 \<le> strlen s"
  shows "\<exists>st. sd_solve sd_genmat s = Some st"
  using solve_explores [OF assms] by blast

section \<open>Claims about the whole search: C1, C7, C9\<close>

lemma ex_full_units:
  "map (\<lambda>u. map (\<lambda>k. ex_full ! k) u) sd_units =
    [''534678912'', ''672195348'', ''198342567'', ''859761423'', ''426853791'',
     ''713924856'', ''961537284'', ''287419635'', ''345286179'', ''561847923'',
     ''379521684'', ''428963175'', ''613789542'', ''794652318'', ''852134796'',
     ''935478261'', ''146295837'', ''287316459'', ''534672198'', ''678195342'',
     ''912348567'', ''859426713'', ''761853924'', ''423791856'', ''961287345'',
     ''537419286'', ''284635179'']"
  by (simp add: sd_units_def row_cells_def col_cells_def box_cells_eq upt9 ex_full_def)

lemma ex_full_valid: "valid_grid ex_full"
proof -
  have "\<forall>xs\<in>set (map (\<lambda>u. map (\<lambda>k. ex_full ! k) u) sd_units).
          \<forall>d\<in>set ''123456789''. count_list xs d = 1"
    unfolding ex_full_units by simp
  then have "\<forall>u\<in>set sd_units. \<forall>d\<in>set ''123456789''. count_list (map (\<lambda>k. ex_full ! k) u) d = 1"
    by (simp only: set_map ball_simps)
  then show ?thesis unfolding valid_grid_def using ex_full_facts(1) by blast
qed

lemma ex_short_take: "ex_short = take 80 ex_full @ [CHR 0x0A]"
  by (simp add: ex_short_def ex_full_def)

lemma ex_short_facts:
  "length ex_short = 81" "strlen ex_short = 81"
  "k < 80 \<Longrightarrow> ex_short ! k = ex_full ! k" "ex_short ! 80 = CHR 0x0A"
proof -
  show l: "length ex_short = 81" by (simp add: ex_short_def)
  have "CHR 0x00 \<notin> set ex_short" by (simp add: ex_short_def)
  then show "strlen ex_short = 81" using l by (simp add: strlen_no_NUL)
  show "ex_short ! k = ex_full ! k" if "k < 80"
    unfolding ex_short_take using that ex_full_facts(1) by (simp add: nth_append)
  show "ex_short ! 80 = CHR 0x0A"
    unfolding ex_short_take using ex_full_facts(1) by (simp add: nth_append)
qed

lemma newline_no_digit: "CHR 0x0A \<notin> set ''123456789''"
  by simp

lemma ex_full_digit: "k < 81 \<Longrightarrow> ex_full ! k \<in> set ''123456789''"
  using ex_full_facts(3) by (simp only: sd_hint_digit)

lemma ex_short_solution: "solution_of ex_short ex_full"
  unfolding solution_of_def
proof (intro conjI allI impI)
  show "valid_grid ex_full" by (rule ex_full_valid)
  fix k :: nat
  assume k: "k < 81" and d: "ex_short ! k \<in> set ''123456789''"
  have "k \<noteq> 80" using d ex_short_facts(4) newline_no_digit by metis
  then have "k < 80" using k by simp
  then show "ex_full ! k = ex_short ! k" by (simp only: ex_short_facts(3))
qed

lemma ex_short_only:
  assumes "solution_of ex_short g"
  shows "g = ex_full"
proof (rule nth_equalityI)
  from assms have v: "valid_grid g"
    and h: "\<And>k. k < 81 \<Longrightarrow> ex_short ! k \<in> set ''123456789'' \<Longrightarrow> g ! k = ex_short ! k"
    unfolding solution_of_def by blast+
  show len: "length g = length ex_full" using v ex_full_facts(1) by (simp add: valid_grid_def)
  have low: "g ! k = ex_full ! k" if "k < 80" for k
  proof -
    have e: "ex_short ! k = ex_full ! k" using that by (rule ex_short_facts(3))
    have "ex_full ! k \<in> set ''123456789''" using that by (intro ex_full_digit) simp
    then have "ex_short ! k \<in> set ''123456789''" unfolding e .
    then have "g ! k = ex_short ! k" using h [of k] that by simp
    then show ?thesis unfolding e .
  qed
  have d80: "g ! 80 \<in> set ''123456789''" by (rule valid_digits [OF v]) simp
  have ne: "g ! 80 \<noteq> ex_full ! k" if "72 \<le> k" "k < 80" for k
  proof -
    have "(80::nat) div 9 = k div 9" using that by simp
    from valid_grid_row [OF v _ _ _ this d80] that have "g ! 80 \<noteq> g ! k" by simp
    then show ?thesis using low [of k] that by simp
  qed
  have "g ! 80 \<noteq> ex_full ! 72" "g ! 80 \<noteq> ex_full ! 73" "g ! 80 \<noteq> ex_full ! 74"
    "g ! 80 \<noteq> ex_full ! 75" "g ! 80 \<noteq> ex_full ! 76" "g ! 80 \<noteq> ex_full ! 77"
    "g ! 80 \<noteq> ex_full ! 78" "g ! 80 \<noteq> ex_full ! 79"
    by (rule ne; simp)+
  then have "g ! 80 \<notin> set ''34528617''" by (simp add: ex_full_def)
  with d80 have "g ! 80 = CHR ''9''" by simp
  then have top: "g ! 80 = ex_full ! 80" by (simp add: ex_full_def)
  fix k
  assume "k < length g"
  then have "k < 80 \<or> k = 80" using len ex_full_facts(1) by (simp; linarith)
  then show "g ! k = ex_full ! k" using low top by blast
qed

lemma ex_short_unique: "\<exists>!g. solution_of ex_short g"
  using ex_short_solution ex_short_only by blast

lemma distinct_singleton:
  assumes "distinct xs" and "set xs = {x}"
  shows "xs = [x]"
proof -
  have "length xs = 1" using distinct_card [OF assms(1)] assms(2) by simp
  then obtain y where "xs = [y]" by (cases xs) auto
  with assms(2) show ?thesis by simp
qed

text \<open>
  When the input has a solution, the search returns through the test at the head of its
  loop and has printed every solution of the input exactly once.
\<close>

lemma solve_solutions:
  assumes len: "81 \<le> strlen s" and sol: "solution_of s g0"
  shows "\<exists>st. sd_solve sd_genmat s = Some st \<and> \<not> st_fault st \<and>
              distinct (st_stdout st) \<and> set (st_stdout st) = {g. solution_of s g}"
proof -
  have g0: "g0 \<in> sols (hint_list s)" using sol by (simp add: sols_hints)
  have "\<forall>a\<in>set (hint_list s). a < 729" using hint_list_bound by blast
  from sols_nonclash [OF g0 this] have good: "nonclash (hint_list s)" .
  from g0 have "sols (hint_list s) \<noteq> {}" by blast
  with solve_explores [OF len] good show ?thesis unfolding sols_hints by blast
qed

lemma fgets_line:
  "CHR 0x0A \<notin> set l \<Longrightarrow> length l < n \<Longrightarrow> fgets n (l @ [CHR 0x0A]) = (l @ [CHR 0x0A], [])"
proof (induction l arbitrary: n)
  case Nil
  then show ?case by (cases n) simp_all
next
  case (Cons a l)
  then show ?case by (cases n) auto
qed

lemma main_loop_end: "main_loop aux fuel [] printed = Some (Inr printed)"
  by (cases fuel) simp_all

text \<open>
  Claim C1: on an input with exactly one solution \<^verbatim>\<open>sd_solve\<close> returns, having printed
  exactly one line; this line is the solution, so each of its rows, columns and boxes holds
  every digit once.
\<close>

theorem sd_solve_unique_solution:
  assumes "81 \<le> strlen s" and "\<exists>!g. solution_of s g"
  shows "\<exists>st g. sd_solve sd_genmat s = Some st \<and> \<not> st_fault st \<and> st_stdout st = [g] \<and>
                solution_of s g \<and> valid_grid g"
proof -
  from assms(2) obtain g where g: "solution_of s g" and u: "{g. solution_of s g} = {g}" by blast
  from solve_solutions [OF assms(1) g] obtain st
    where st: "sd_solve sd_genmat s = Some st" "\<not> st_fault st"
      "distinct (st_stdout st)" "set (st_stdout st) = {g}" unfolding u by blast
  from distinct_singleton [OF st(3,4)] have "st_stdout st = [g]" .
  moreover have "valid_grid g" using g by (simp add: solution_of_def)
  ultimately show ?thesis using st(1,2) g by blast
qed

theorem sd_solve_unique_solution_witness:
  "(81 \<le> strlen ex_short \<and> (\<exists>!g. solution_of ex_short g))
   \<and> (\<exists>st. sd_solve sd_genmat ex_short = Some st \<and> \<not> st_fault st \<and> st_stdout st = [ex_full])
   \<and> valid_grid ex_full"
proof -
  have len: "81 \<le> strlen ex_short" by (simp add: ex_short_facts)
  from sd_solve_unique_solution [OF len ex_short_unique] obtain st g
    where st: "sd_solve sd_genmat ex_short = Some st" "\<not> st_fault st" "st_stdout st = [g]"
      "solution_of ex_short g" by blast
  from ex_short_only [OF st(4)] st(1,2,3) len ex_short_unique ex_full_valid
  show ?thesis by blast
qed



text \<open>
  Claim C9 does not hold of the code: \<^verbatim>\<open>fgets\<close> keeps the newline and \<^verbatim>\<open>strlen(buf) < 81\<close>
  counts it. A line of 80 characters is passed to \<^verbatim>\<open>sd_solve\<close>, which reads the newline as
  an empty cell 80, and the program prints the completed grid and the empty line that
  follows every solved puzzle.
\<close>

theorem main_solves_short_line:
  "length (takeWhile (\<lambda>ch. ch \<noteq> CHR 0x0A) ex_short) = 80
   \<and> main ex_short = Some (Inr (ex_full @ [CHR 0x0A, CHR 0x0A]))"
proof -
  have c: "length (takeWhile (\<lambda>ch. ch \<noteq> CHR 0x0A) ex_short) = 80"
    by (simp add: ex_short_def)
  have len: "81 \<le> strlen ex_short" by (simp add: ex_short_facts)
  from solve_solutions [OF len ex_short_solution] obtain st
    where st: "sd_solve sd_genmat ex_short = Some st" "\<not> st_fault st"
      "distinct (st_stdout st)" "set (st_stdout st) = {g. solution_of ex_short g}" by blast
  have "{g. solution_of ex_short g} = {ex_full}"
    using ex_short_solution ex_short_only by blast
  with st(3,4) have out: "st_stdout st = [ex_full]" by (simp add: distinct_singleton)
  have "CHR 0x0A \<notin> set (take 80 ex_full)" by (simp add: ex_full_def)
  then have fg: "fgets 1023 ex_short = (ex_short, [])"
    unfolding ex_short_take by (rule fgets_line) simp
  have ne: "ex_short \<noteq> []" by (simp add: ex_short_def)
  have l: "length ex_short = Suc 80" by (simp add: ex_short_facts(1))
  have "main ex_short = main_loop sd_genmat (Suc 80) ex_short []"
    unfolding main_def l ..
  also have "\<dots> = main_loop sd_genmat 80 [] (ex_full @ [CHR 0x0A, CHR 0x0A])"
    unfolding main_loop.simps(2) using fg st(1,2) out ne ex_short_facts(2) by simp
  also have "\<dots> = Some (Inr (ex_full @ [CHR 0x0A, CHR 0x0A]))" by (rule main_loop_end)
  finally show ?thesis using c by simp
qed

end
